theory Spec2Isabelle
  imports Main "HOL-Library.Multiset" "HOL-Library.Signed_Division"
begin

section \<open>Package sorter: the data model\<close>

text \<open>
  The package has one source file, \<^verbatim>\<open>sorter/sorter.go\<close>. It declares the interface
  \<^verbatim>\<open>Sortable\<close> (\<^verbatim>\<open>Length\<close>, \<^verbatim>\<open>Less\<close>, \<^verbatim>\<open>Exchange\<close>), one implementation of it
  (\<^verbatim>\<open>multiKeySorter\<close>, a slice seen through \<^verbatim>\<open>reflect\<close> together with a comparison
  function), the entry point \<^verbatim>\<open>By.Sort\<close> and the three procedures \<^verbatim>\<open>Selection\<close>,
  \<^verbatim>\<open>Insertion\<close> and \<^verbatim>\<open>Shell\<close>.

  A panic is a value of type \<open>error\<close>; every operation that can panic returns
  \<open>error + 'a\<close> with \<open>Inl\<close> for the panic.
\<close>

datatype error = NonSlicePanic | IndexPanic | ZeroValuePanic

text \<open>
  The dynamic value held in the field \<^verbatim>\<open>coll interface{}\<close>: either a slice, or a value
  of any other kind (the methods only ask whether the kind is \<^verbatim>\<open>reflect.Slice\<close>; a
  nil \<^verbatim>\<open>coll\<close> is not a slice, and panics in that test).

  The methods see an element of the slice only as the interface value that
  \<^verbatim>\<open>slice.Index(i).Interface()\<close> returns, and the comparison function takes two such
  values (\<^verbatim>\<open>func(o1, o2 interface{}) bool\<close>). An interface value is \<open>Some x\<close> for a
  value \<open>x\<close>, or \<open>None\<close> for the nil interface. Only a slice whose element type is an
  interface type can hold the nil interface; every element of a slice of any other
  element type (\<^verbatim>\<open>[]int\<close>, a slice of structs or of pointers) is \<open>Some x\<close>.
\<close>

datatype 'a go_value = Slice "'a option list" | NonSlice

record 'a multiKeySorter =
  coll :: "'a go_value"
  lesser :: "'a option \<Rightarrow> 'a option \<Rightarrow> bool"

text \<open>\<^verbatim>\<open>slice.Index(i)\<close> panics unless \<open>0 \<le> i < slice.Len()\<close>.\<close>

definition in_bounds :: "'b list \<Rightarrow> int \<Rightarrow> bool" where
  "in_bounds xs i \<longleftrightarrow> 0 \<le> i \<and> i < int (length xs)"

definition mks_Length :: "'a multiKeySorter \<Rightarrow> error + int" where
  "mks_Length mks =
     (case coll mks of
        Slice xs \<Rightarrow> Inr (int (length xs))
      | NonSlice \<Rightarrow> Inl NonSlicePanic)"

text \<open>
  \<^verbatim>\<open>Exchange\<close>, statement by statement:

  \<^item> \<^verbatim>\<open>temp := reflect.ValueOf(slice.Index(i).Interface())\<close>: \<open>Index(i)\<close> panics out
    of range; \<open>temp\<close> is the zero \<^verbatim>\<open>Value\<close> when the element is the nil interface.
  \<^item> \<^verbatim>\<open>slice.Index(i).Set(reflect.ValueOf(slice.Index(j).Interface()))\<close>: \<open>Index(j)\<close>
    panics out of range; \<^verbatim>\<open>Set\<close> panics on the zero \<^verbatim>\<open>Value\<close>, that is when the
    element at \<open>j\<close> is the nil interface; otherwise the element at \<open>j\<close> is stored at \<open>i\<close>.
  \<^item> \<^verbatim>\<open>slice.Index(j).Set(temp)\<close>: \<^verbatim>\<open>Set\<close> panics when \<open>temp\<close> is the zero
    \<^verbatim>\<open>Value\<close> (the store at \<open>i\<close> is done by then); otherwise \<open>temp\<close> is stored at \<open>j\<close>.

  The slice shares its backing array with the caller's slice, so the update is the
  caller's update: the new contents are returned in the sorter.
\<close>

definition mks_Exchange :: "'a multiKeySorter \<Rightarrow> int \<Rightarrow> int \<Rightarrow> error + 'a multiKeySorter" where
  "mks_Exchange mks i j =
     (case coll mks of
        Slice xs \<Rightarrow>
          if \<not> in_bounds xs i then Inl IndexPanic
          else
            (let temp = xs ! nat i in
             if \<not> in_bounds xs j then Inl IndexPanic
             else if xs ! nat j = None then Inl ZeroValuePanic
             else
               (let xs1 = xs[nat i := xs ! nat j] in
                if temp = None then Inl ZeroValuePanic
                else
                  (let xs2 = xs1[nat j := temp]
                   in Inr (mks\<lparr>coll := Slice xs2\<rparr>))))
      | NonSlice \<Rightarrow> Inl NonSlicePanic)"

definition mks_Less :: "'a multiKeySorter \<Rightarrow> int \<Rightarrow> int \<Rightarrow> error + bool" where
  "mks_Less mks i j =
     (case coll mks of
        Slice xs \<Rightarrow>
          if \<not> in_bounds xs i then Inl IndexPanic
          else if \<not> in_bounds xs j then Inl IndexPanic
          else Inr (lesser mks (xs ! nat i) (xs ! nat j))
      | NonSlice \<Rightarrow> Inl NonSlicePanic)"

text \<open>
  The interface \<^verbatim>\<open>Sortable\<close>: three methods over a receiver of some type \<open>'s\<close>.
  \<^verbatim>\<open>Exchange\<close> returns the receiver after the mutation.
\<close>

record 's Sortable =
  Length :: "'s \<Rightarrow> error + int"
  Less :: "'s \<Rightarrow> int \<Rightarrow> int \<Rightarrow> error + bool"
  Exchange :: "'s \<Rightarrow> int \<Rightarrow> int \<Rightarrow> error + 's"

definition mks_Sortable :: "'a multiKeySorter Sortable" where
  "mks_Sortable = \<lparr>Length = mks_Length, Less = mks_Less, Exchange = mks_Exchange\<rparr>"

text \<open>
  The procedures are observed through the calls they make on the interface: a run
  carries the receiver and the calls made so far, oldest first. A call that panics ends
  the run with the panic alone: the calls before it, and the receiver as the panic
  leaves it, are not part of the result.
\<close>

datatype call = LessCall int int | ExchangeCall int int

type_synonym 's run = "'s \<times> call list"

definition do_Less :: "'s Sortable \<Rightarrow> int \<Rightarrow> int \<Rightarrow> 's run \<Rightarrow> error + (bool \<times> 's run)" where
  "do_Less c i j st =
     (case Less c (fst st) i j of
        Inl e \<Rightarrow> Inl e
      | Inr b \<Rightarrow> Inr (b, (fst st, snd st @ [LessCall i j])))"

definition do_Exchange :: "'s Sortable \<Rightarrow> int \<Rightarrow> int \<Rightarrow> 's run \<Rightarrow> error + 's run" where
  "do_Exchange c i j st =
     (case Exchange c (fst st) i j of
        Inl e \<Rightarrow> Inl e
      | Inr s' \<Rightarrow> Inr (s', snd st @ [ExchangeCall i j]))"

section \<open>Selection\<close>

text \<open>
  The inner loop \<^verbatim>\<open>for j := i + 1; j < end && coll.Less(j, min); j++ { min = j }\<close>:
  the call to \<^verbatim>\<open>Less\<close> is part of the loop condition, so the loop ends at the first
  \<open>j\<close> for which it answers false. It returns the final \<open>min\<close>.
\<close>

function selection_scan ::
  "'s Sortable \<Rightarrow> int \<Rightarrow> int \<Rightarrow> int \<Rightarrow> 's run \<Rightarrow> error + (int \<times> 's run)" where
  "selection_scan c en j mn st =
     (if j < en then
        (case do_Less c j mn st of
           Inl e \<Rightarrow> Inl e
         | Inr r \<Rightarrow> if fst r then selection_scan c en (j + 1) j (snd r) else Inr (mn, snd r))
      else Inr (mn, st))"
  by pat_completeness auto
termination
  by (relation "measure (\<lambda>(c, en, j, mn, st). nat (en - j))") auto

function selection_loop :: "'s Sortable \<Rightarrow> int \<Rightarrow> int \<Rightarrow> 's run \<Rightarrow> error + 's run" where
  "selection_loop c en i st =
     (if i < en then
        (case selection_scan c en (i + 1) i st of
           Inl e \<Rightarrow> Inl e
         | Inr r \<Rightarrow>
             (case do_Exchange c i (fst r) (snd r) of
                Inl e \<Rightarrow> Inl e
              | Inr st' \<Rightarrow> selection_loop c en (i + 1) st'))
      else Inr st)"
  by pat_completeness auto
termination
  by (relation "measure (\<lambda>(c, en, i, st). nat (en - i))") auto

definition Selection :: "'s Sortable \<Rightarrow> int \<Rightarrow> int \<Rightarrow> 's run \<Rightarrow> error + 's run" where
  "Selection c bgn en st = selection_loop c en bgn st"

section \<open>Insertion\<close>

text \<open>The inner loop \<^verbatim>\<open>for j := i; j > bgn && coll.Less(j, j-1); j--\<close>.\<close>

function insertion_sift :: "'s Sortable \<Rightarrow> int \<Rightarrow> int \<Rightarrow> 's run \<Rightarrow> error + 's run" where
  "insertion_sift c bgn j st =
     (if j > bgn then
        (case do_Less c j (j - 1) st of
           Inl e \<Rightarrow> Inl e
         | Inr r \<Rightarrow>
             if fst r then
               (case do_Exchange c j (j - 1) (snd r) of
                  Inl e \<Rightarrow> Inl e
                | Inr st' \<Rightarrow> insertion_sift c bgn (j - 1) st')
             else Inr (snd r))
      else Inr st)"
  by pat_completeness auto
termination
  by (relation "measure (\<lambda>(c, bgn, j, st). nat (j - bgn))") auto

function insertion_loop :: "'s Sortable \<Rightarrow> int \<Rightarrow> int \<Rightarrow> int \<Rightarrow> 's run \<Rightarrow> error + 's run" where
  "insertion_loop c bgn en i st =
     (if i < en then
        (case insertion_sift c bgn i st of
           Inl e \<Rightarrow> Inl e
         | Inr st' \<Rightarrow> insertion_loop c bgn en (i + 1) st')
      else Inr st)"
  by pat_completeness auto
termination
  by (relation "measure (\<lambda>(c, bgn, en, i, st). nat (en - i))") auto

definition Insertion :: "'s Sortable \<Rightarrow> int \<Rightarrow> int \<Rightarrow> 's run \<Rightarrow> error + 's run" where
  "Insertion c bgn en st = insertion_loop c bgn en bgn st"

section \<open>Shell\<close>

text \<open>
  Go's \<^verbatim>\<open>int\<close> is a 64-bit two's-complement integer on the platforms Go targets by
  default. The one operation of the package that can leave that range is the
  subtraction \<^verbatim>\<open>end - bgn\<close> in \<^verbatim>\<open>Shell\<close>, for arguments that are not a range of a
  slice; it wraps around. Every other operation stays between values already held
  (\<open>i + 1 \<le> end\<close>, \<open>j - 1 \<ge> bgn\<close>, \<open>3 * h + 1 \<le> end - bgn\<close>, \<open>j - h \<ge> 0\<close>).
  Go's division truncates toward zero: that is \<open>sdiv\<close>.
\<close>

definition wrap_int64 :: "int \<Rightarrow> int" where
  "wrap_int64 x = (x + 2 ^ 63) mod 2 ^ 64 - 2 ^ 63"

text \<open>
  The first loop, \<^verbatim>\<open>for h < (end - bgn) / 3 { h = 3 * h + 1 }\<close>, from \<open>h\<close>. The
  variable starts at 1 and only grows; the test \<open>1 \<le> h\<close> records that, and with it
  the recursion is well-founded.
\<close>

function shell_gap_init :: "int \<Rightarrow> int \<Rightarrow> int" where
  "shell_gap_init n h = (if 1 \<le> h \<and> h < n sdiv 3 then shell_gap_init n (3 * h + 1) else h)"
  by pat_completeness auto
termination
  by (relation "measure (\<lambda>(n, h). nat (n sdiv 3 - h))") auto

text \<open>
  The innermost loop \<^verbatim>\<open>for j := i; j >= h && coll.Less(j, j - h); j -= h\<close>. It only
  runs inside \<^verbatim>\<open>for h >= 1\<close>; the test \<open>1 \<le> h\<close> records that, and with it the
  recursion is well-founded.
\<close>

function shell_sift :: "'s Sortable \<Rightarrow> int \<Rightarrow> int \<Rightarrow> 's run \<Rightarrow> error + 's run" where
  "shell_sift c h j st =
     (if 1 \<le> h \<and> j \<ge> h then
        (case do_Less c j (j - h) st of
           Inl e \<Rightarrow> Inl e
         | Inr r \<Rightarrow>
             if fst r then
               (case do_Exchange c j (j - h) (snd r) of
                  Inl e \<Rightarrow> Inl e
                | Inr st' \<Rightarrow> shell_sift c h (j - h) st')
             else Inr (snd r))
      else Inr st)"
  by pat_completeness auto
termination
  by (relation "measure (\<lambda>(c, h, j, st). nat j)") auto

text \<open>The loop \<^verbatim>\<open>for i := h; i < (end - bgn); i++\<close>, with \<open>n\<close> for \<open>end - bgn\<close>.\<close>

function shell_pass :: "'s Sortable \<Rightarrow> int \<Rightarrow> int \<Rightarrow> int \<Rightarrow> 's run \<Rightarrow> error + 's run" where
  "shell_pass c n h i st =
     (if i < n then
        (case shell_sift c h i st of
           Inl e \<Rightarrow> Inl e
         | Inr st' \<Rightarrow> shell_pass c n h (i + 1) st')
      else Inr st)"
  by pat_completeness auto
termination
  by (relation "measure (\<lambda>(c, n, h, i, st). nat (n - i))") auto

text \<open>The loop \<^verbatim>\<open>for h >= 1 { ...; h = h / 3 }\<close>.\<close>

function shell_loop :: "'s Sortable \<Rightarrow> int \<Rightarrow> int \<Rightarrow> 's run \<Rightarrow> error + 's run" where
  "shell_loop c n h st =
     (if h \<ge> 1 then
        (case shell_pass c n h h st of
           Inl e \<Rightarrow> Inl e
         | Inr st' \<Rightarrow> shell_loop c n (h sdiv 3) st')
      else Inr st)"
  by pat_completeness auto
termination
  by (relation "measure (\<lambda>(c, n, h, st). nat h)") (auto simp: signed_divide_int_def)

definition Shell :: "'s Sortable \<Rightarrow> int \<Rightarrow> int \<Rightarrow> 's run \<Rightarrow> error + 's run" where
  "Shell c bgn en st =
     (let n = wrap_int64 (en - bgn)
      in shell_loop c n (shell_gap_init n 1) st)"

section \<open>By.Sort\<close>

text \<open>
  \<^verbatim>\<open>By(lesser).Sort(coll)\<close> builds the sorter and calls
  \<^verbatim>\<open>Shell(mks, 0, mks.Length())\<close>; the argument \<^verbatim>\<open>mks.Length()\<close> is evaluated first
  and may panic.
\<close>

definition By_Sort ::
  "('a option \<Rightarrow> 'a option \<Rightarrow> bool) \<Rightarrow> 'a go_value \<Rightarrow> error + 'a multiKeySorter run" where
  "By_Sort by_fn v =
     (let mks = \<lparr>coll = v, lesser = by_fn\<rparr>
      in case mks_Length mks of
           Inl e \<Rightarrow> Inl e
         | Inr n \<Rightarrow> Shell mks_Sortable 0 n (mks, []))"

section \<open>What a run leaves behind\<close>

text \<open>The slice held by the sorter after a run, and the calls of a run.\<close>

definition result_slice :: "error + 'a multiKeySorter run \<Rightarrow> error + 'a go_value" where
  "result_slice r = (case r of Inl e \<Rightarrow> Inl e | Inr st \<Rightarrow> Inr (coll (fst st)))"

definition result_calls :: "error + 's run \<Rightarrow> error + call list" where
  "result_calls r = (case r of Inl e \<Rightarrow> Inl e | Inr st \<Rightarrow> Inr (snd st))"

text \<open>The elements stored at the positions \<open>[bgn, en)\<close> of a list, in order.\<close>

definition range_elems :: "'a list \<Rightarrow> int \<Rightarrow> int \<Rightarrow> 'a list" where
  "range_elems xs bgn en = take (nat (en - bgn)) (drop (nat bgn) xs)"

text \<open>The increments 1, 4, 13, 40, 121, ... named in the comment of \<^verbatim>\<open>Shell\<close>.\<close>

fun gap_seq :: "nat \<Rightarrow> int" where
  "gap_seq 0 = 1"
| "gap_seq (Suc k) = 3 * gap_seq k + 1"

text \<open>
  The comparison is expected to be a strict weak ordering: irreflexive, transitive, and
  with a transitive "not less" (so that being neither less nor greater is an
  equivalence).
\<close>

definition strict_weak_order :: "('a \<Rightarrow> 'a \<Rightarrow> bool) \<Rightarrow> bool" where
  "strict_weak_order f \<longleftrightarrow>
     (\<forall>a. \<not> f a a) \<and> (\<forall>a b c. f a b \<longrightarrow> f b c \<longrightarrow> f a c) \<and>
     (\<forall>a b c. \<not> f a b \<longrightarrow> \<not> f b c \<longrightarrow> \<not> f a c)"

text \<open>
  The positions \<open>[lo, hi)\<close> of \<open>xs\<close> are in non-decreasing order: no element is less
  than an earlier one. Adjacent positions are the case \<open>q = p + 1\<close>.
\<close>

definition sorted_on :: "('a \<Rightarrow> 'a \<Rightarrow> bool) \<Rightarrow> 'a list \<Rightarrow> int \<Rightarrow> int \<Rightarrow> bool" where
  "sorted_on f xs lo hi \<longleftrightarrow>
     (\<forall>p \<in> {lo ..< hi}. \<forall>q \<in> {p <..< hi}. \<not> f (xs ! nat q) (xs ! nat p))"

text \<open>
  The same for adjacent positions only: for every \<open>k\<close> with \<open>bgn \<le> k\<close> and
  \<open>k + 1 < en\<close>, the element at \<open>k + 1\<close> is not less than the element at \<open>k\<close>.
\<close>

definition nondecreasing :: "('a \<Rightarrow> 'a \<Rightarrow> bool) \<Rightarrow> 'a list \<Rightarrow> int \<Rightarrow> int \<Rightarrow> bool" where
  "nondecreasing f xs bgn en \<longleftrightarrow>
     (\<forall>k \<in> {bgn ..< en - 1}. \<not> f (xs ! nat (k + 1)) (xs ! nat k))"

text \<open>Both positions of a call lie in \<open>[lo, hi)\<close>.\<close>

fun call_within :: "int \<Rightarrow> int \<Rightarrow> call \<Rightarrow> bool" where
  "call_within lo hi (LessCall i j) \<longleftrightarrow> lo \<le> i \<and> i < hi \<and> lo \<le> j \<and> j < hi"
| "call_within lo hi (ExchangeCall i j) \<longleftrightarrow> lo \<le> i \<and> i < hi \<and> lo \<le> j \<and> j < hi"

text \<open>A call that is a comparison; a call that cannot move an element.\<close>

fun is_LessCall :: "call \<Rightarrow> bool" where
  "is_LessCall (LessCall i j) \<longleftrightarrow> True"
| "is_LessCall (ExchangeCall i j) \<longleftrightarrow> False"

fun no_move :: "call \<Rightarrow> bool" where
  "no_move (LessCall i j) \<longleftrightarrow> True"
| "no_move (ExchangeCall i j) \<longleftrightarrow> i = j"

text \<open>
  What the procedures expect of a receiver: in the states \<open>I\<close> it stands for a list of
  elements, \<open>\<alpha> s\<close>; for positions of that list, \<^verbatim>\<open>Less(i, j)\<close> returns the comparison
  \<open>f\<close> of the elements at \<open>i\<close> and \<open>j\<close>, and \<^verbatim>\<open>Exchange(i, j)\<close> returns, in a state of
  \<open>I\<close> again, with the two elements swapped.
\<close>

definition list_view ::
  "'s Sortable \<Rightarrow> ('s \<Rightarrow> bool) \<Rightarrow> ('s \<Rightarrow> 'b list) \<Rightarrow> ('b \<Rightarrow> 'b \<Rightarrow> bool) \<Rightarrow> bool" where
  "list_view c I \<alpha> f \<longleftrightarrow>
     (\<forall>s i j. I s \<and> in_bounds (\<alpha> s) i \<and> in_bounds (\<alpha> s) j \<longrightarrow>
        Less c s i j = Inr (f (\<alpha> s ! nat i) (\<alpha> s ! nat j)) \<and>
        (\<exists>s'. Exchange c s i j = Inr s' \<and> I s' \<and>
              \<alpha> s' = (\<alpha> s)[nat i := \<alpha> s ! nat j, nat j := \<alpha> s ! nat i]))"

text \<open>
  For the sorter: the elements of its slice; and the sorters that hold a slice with no
  nil interface among its elements, and the comparison \<open>f\<close>.
\<close>

definition mks_elems :: "'a multiKeySorter \<Rightarrow> 'a option list" where
  "mks_elems mks = (case coll mks of Slice xs \<Rightarrow> xs | NonSlice \<Rightarrow> [])"

definition mks_ready :: "('a option \<Rightarrow> 'a option \<Rightarrow> bool) \<Rightarrow> 'a multiKeySorter \<Rightarrow> bool" where
  "mks_ready f mks \<longleftrightarrow>
     lesser mks = f \<and> (case coll mks of Slice xs \<Rightarrow> None \<notin> set xs | NonSlice \<Rightarrow> False)"

text \<open>
  A comparison function for the examples: two values compare by \<open>f\<close>, and the nil
  interface comes before every value.
\<close>

fun nil_first :: "('a \<Rightarrow> 'a \<Rightarrow> bool) \<Rightarrow> 'a option \<Rightarrow> 'a option \<Rightarrow> bool" where
  "nil_first f None None \<longleftrightarrow> False"
| "nil_first f None (Some b) \<longleftrightarrow> True"
| "nil_first f (Some a) None \<longleftrightarrow> False"
| "nil_first f (Some a) (Some b) \<longleftrightarrow> f a b"

section \<open>Unfolding the loops\<close>

declare selection_scan.simps [simp del]
declare selection_loop.simps [simp del]
declare insertion_sift.simps [simp del]
declare insertion_loop.simps [simp del]
declare shell_gap_init.simps [simp del]
declare shell_sift.simps [simp del]
declare shell_pass.simps [simp del]
declare shell_loop.simps [simp del]

lemmas loop_eqs =
  selection_scan.simps selection_loop.simps insertion_sift.simps insertion_loop.simps
  shell_gap_init.simps shell_sift.simps shell_pass.simps shell_loop.simps

lemmas mks_eval =
  mks_Sortable_def do_Less_def do_Exchange_def mks_Less_def mks_Exchange_def
  mks_Length_def in_bounds_def result_slice_def result_calls_def

lemmas proc_eval =
  Selection_def Insertion_def Shell_def By_Sort_def wrap_int64_def signed_divide_int_def

text \<open>
  The two tests \<open>1 \<le> h\<close> added for well-foundedness hold whenever the loops run: with
  them true, the equations are the loops as written in the source.
\<close>

lemma shell_gap_init_loop:
  "1 \<le> h \<Longrightarrow>
   shell_gap_init n h = (if h < n sdiv 3 then shell_gap_init n (3 * h + 1) else h)"
  by (subst shell_gap_init.simps) simp

lemma shell_sift_loop:
  "1 \<le> h \<Longrightarrow>
   shell_sift c h j st =
     (if j \<ge> h then
        (case do_Less c j (j - h) st of
           Inl e \<Rightarrow> Inl e
         | Inr r \<Rightarrow>
             if fst r then
               (case do_Exchange c j (j - h) (snd r) of
                  Inl e \<Rightarrow> Inl e
                | Inr st' \<Rightarrow> shell_sift c h (j - h) st')
             else Inr (snd r))
      else Inr st)"
  by (subst shell_sift.simps) simp

section \<open>Receivers that stand for a list\<close>

text \<open>The two calls on such a receiver, for positions of the list; an exchange keeps the elements.\<close>

lemma do_Less_view:
  "list_view c I \<alpha> f \<Longrightarrow> I s \<Longrightarrow> \<alpha> s = xs \<Longrightarrow> in_bounds xs i \<Longrightarrow> in_bounds xs j \<Longrightarrow>
   do_Less c i j (s, tr) = Inr (f (xs ! nat i) (xs ! nat j), (s, tr @ [LessCall i j]))"
  unfolding list_view_def do_Less_def by fastforce

lemma do_Exchange_view:
  "list_view c I \<alpha> f \<Longrightarrow> I s \<Longrightarrow> \<alpha> s = xs \<Longrightarrow> in_bounds xs i \<Longrightarrow> in_bounds xs j \<Longrightarrow>
   \<exists>s'. do_Exchange c i j (s, tr) = Inr (s', tr @ [ExchangeCall i j]) \<and> I s'
      \<and> \<alpha> s' = xs[nat i := xs ! nat j, nat j := xs ! nat i]"
  unfolding list_view_def do_Exchange_def by fastforce

lemma mset_exchange:
  "i < length xs \<Longrightarrow> j < length xs \<Longrightarrow> mset (xs[i := xs ! j, j := xs ! i]) = mset xs"
  using mset_swap [of j xs i] by simp

section \<open>Insertion sorts its range\<close>

text \<open>
  The sift of the element that started at position \<open>tp\<close>, now at \<open>j\<close>: the other
  positions of \<open>[bgn, tp]\<close> are in order among themselves, and the element at \<open>j\<close> is
  less than every element after it up to \<open>tp\<close>. Each exchange keeps that; when the sift
  stops, \<open>[bgn, tp]\<close> is in order. The run returns, every call is on positions of
  \<open>[bgn, tp]\<close>, the elements are the same ones, and the positions outside keep theirs.
\<close>

lemma insertion_sift_sorted:
  assumes swo: "strict_weak_order f" and lv: "list_view c I \<alpha> f"
  shows "0 \<le> bgn \<Longrightarrow> bgn \<le> j \<Longrightarrow> j \<le> tp \<Longrightarrow> tp < int (length xs) \<Longrightarrow>
    (\<forall>p q. bgn \<le> p \<and> p < q \<and> q \<le> tp \<and> p \<noteq> j \<and> q \<noteq> j \<longrightarrow> \<not> f (xs ! nat q) (xs ! nat p)) \<Longrightarrow>
    (\<forall>q. j < q \<and> q \<le> tp \<longrightarrow> f (xs ! nat j) (xs ! nat q)) \<Longrightarrow>
    I s \<Longrightarrow> \<alpha> s = xs \<Longrightarrow>
    \<exists>s' new. insertion_sift c bgn j (s, tr) = Inr (s', tr @ new) \<and> I s'
       \<and> length (\<alpha> s') = length xs \<and> mset (\<alpha> s') = mset xs
       \<and> (\<forall>k. k < nat bgn \<or> nat tp < k \<longrightarrow> \<alpha> s' ! k = xs ! k)
       \<and> (\<forall>cl \<in> set new. call_within bgn (tp + 1) cl)
       \<and> sorted_on f (\<alpha> s') bgn (tp + 1)"
proof (induction "nat (j - bgn)" arbitrary: j s xs tr)
  case 0
  then have jb: "j = bgn" by simp
  have run: "insertion_sift c bgn j (s, tr) = Inr (s, tr @ [])"
    using jb by (simp add: insertion_sift.simps)
  have asym: "\<And>a b. f a b \<Longrightarrow> \<not> f b a"
    using swo unfolding strict_weak_order_def by blast
  have A: "\<And>p q. bgn \<le> p \<Longrightarrow> p < q \<Longrightarrow> q \<le> tp \<Longrightarrow> p \<noteq> j \<Longrightarrow> q \<noteq> j
      \<Longrightarrow> \<not> f (xs ! nat q) (xs ! nat p)"
    using "0.prems"(5) by blast
  have B: "\<And>q. j < q \<Longrightarrow> q \<le> tp \<Longrightarrow> f (xs ! nat j) (xs ! nat q)"
    using "0.prems"(6) by blast
  have "sorted_on f xs bgn (tp + 1)"
    unfolding sorted_on_def
  proof (intro ballI)
    fix p q assume p: "p \<in> {bgn ..< tp + 1}" and q: "q \<in> {p <..< tp + 1}"
    show "\<not> f (xs ! nat q) (xs ! nat p)"
    proof (cases "p = j")
      case True
      then have "f (xs ! nat p) (xs ! nat q)" using B [of q] p q by auto
      then show ?thesis by (rule asym)
    next
      case False
      then show ?thesis using A [of p q] p q jb by auto
    qed
  qed
  with run "0.prems"(7,8) show ?case by (intro exI [of _ s] exI [of _ "[]"]) simp
next
  case (Suc n)
  then have jb: "bgn < j" by simp
  note Is = Suc.prems(7) and ax = Suc.prems(8)
  have bj: "in_bounds xs j" and bj1: "in_bounds xs (j - 1)"
    using Suc.prems(1-4) jb by (auto simp: in_bounds_def)
  have asym: "\<And>a b. f a b \<Longrightarrow> \<not> f b a"
    and ntrans: "\<And>a b c. \<not> f a b \<Longrightarrow> \<not> f b c \<Longrightarrow> \<not> f a c"
    using swo unfolding strict_weak_order_def by blast+
  have A: "\<And>p q. bgn \<le> p \<Longrightarrow> p < q \<Longrightarrow> q \<le> tp \<Longrightarrow> p \<noteq> j \<Longrightarrow> q \<noteq> j
      \<Longrightarrow> \<not> f (xs ! nat q) (xs ! nat p)"
    using Suc.prems(5) by blast
  have B: "\<And>q. j < q \<Longrightarrow> q \<le> tp \<Longrightarrow> f (xs ! nat j) (xs ! nat q)"
    using Suc.prems(6) by blast
  note bnds = Suc.prems(1-4)
  note less = do_Less_view [OF lv Is ax bj bj1, where tr = tr]
  show ?case
  proof (cases "f (xs ! nat j) (xs ! nat (j - 1))")
    case False
    have run: "insertion_sift c bgn j (s, tr) = Inr (s, tr @ [LessCall j (j - 1)])"
      using jb False by (subst insertion_sift.simps) (simp add: less)
    have "sorted_on f xs bgn (tp + 1)"
      unfolding sorted_on_def
    proof (intro ballI)
      fix p q assume p: "p \<in> {bgn ..< tp + 1}" and q: "q \<in> {p <..< tp + 1}"
      consider "p = j" | "q = j" "p = j - 1" | "q = j" "p < j - 1" | "p \<noteq> j" "q \<noteq> j"
        using p q by force
      then show "\<not> f (xs ! nat q) (xs ! nat p)"
      proof cases
        case 1
        then have "f (xs ! nat p) (xs ! nat q)" using B [of q] p q by auto
        then show ?thesis by (rule asym)
      next
        case 2
        then show ?thesis using False by simp
      next
        case 3
        have "\<not> f (xs ! nat (j - 1)) (xs ! nat p)"
          using A [of p "j - 1"] 3 p q jb bnds by auto
        from ntrans [OF False this] 3 show ?thesis by simp
      next
        case 4
        then show ?thesis using A [of p q] p q by auto
      qed
    qed
    moreover have "\<forall>cl \<in> set [LessCall j (j - 1)]. call_within bgn (tp + 1) cl"
      using bnds jb by simp
    ultimately show ?thesis using run Is ax
      by (intro exI [of _ s] exI [of _ "[LessCall j (j - 1)]"]) simp
  next
    case True
    let ?zs = "xs[nat j := xs ! nat (j - 1), nat (j - 1) := xs ! nat j]"
    let ?tr = "tr @ [LessCall j (j - 1), ExchangeCall j (j - 1)]"
    have nj: "nat j < length xs" "nat (j - 1) < length xs" "nat (j - 1) \<noteq> nat j"
      using bnds jb by auto
    have z1: "?zs ! nat (j - 1) = xs ! nat j"
      using nj by simp
    have z2: "?zs ! nat j = xs ! nat (j - 1)"
      using nj by (simp add: nth_list_update)
    have z3: "\<And>k. 0 \<le> k \<Longrightarrow> k \<noteq> j \<Longrightarrow> k \<noteq> j - 1 \<Longrightarrow> ?zs ! nat k = xs ! nat k"
      using jb bnds by (simp add: nth_list_update nat_eq_iff)
    from do_Exchange_view [OF lv Is ax bj bj1, where tr = "tr @ [LessCall j (j - 1)]"]
    obtain s1 where x:
      "do_Exchange c j (j - 1) (s, tr @ [LessCall j (j - 1)]) = Inr (s1, ?tr)"
      "I s1" "\<alpha> s1 = ?zs"
      by auto
    have step: "insertion_sift c bgn j (s, tr) = insertion_sift c bgn (j - 1) (s1, ?tr)"
      using jb True by (subst insertion_sift.simps) (simp add: less x(1))
    have A': "\<forall>p q. bgn \<le> p \<and> p < q \<and> q \<le> tp \<and> p \<noteq> j - 1 \<and> q \<noteq> j - 1
        \<longrightarrow> \<not> f (?zs ! nat q) (?zs ! nat p)"
    proof (intro allI impI)
      fix p q assume h: "bgn \<le> p \<and> p < q \<and> q \<le> tp \<and> p \<noteq> j - 1 \<and> q \<noteq> j - 1"
      have pb: "0 \<le> p" "0 \<le> q"
        using h bnds by auto
      consider "q = j" | "p = j" | "p \<noteq> j" "q \<noteq> j" by blast
      then show "\<not> f (?zs ! nat q) (?zs ! nat p)"
      proof cases
        case 1
        then have pj: "p < j - 1" using h by simp
        have e: "?zs ! nat p = xs ! nat p" using z3 [of p] pb pj by simp
        have "\<not> f (xs ! nat (j - 1)) (xs ! nat p)"
          using A [of p "j - 1"] h jb bnds pj by simp
        then show ?thesis unfolding 1 z2 e .
      next
        case 2
        have e: "?zs ! nat q = xs ! nat q" using z3 [of q] pb h 2 by simp
        have "\<not> f (xs ! nat q) (xs ! nat (j - 1))"
          using A [of "j - 1" q] h jb bnds 2 by simp
        then show ?thesis unfolding 2 z2 e .
      next
        case 3
        have e: "?zs ! nat q = xs ! nat q" "?zs ! nat p = xs ! nat p"
          using z3 [of q] z3 [of p] pb h 3 by simp_all
        show ?thesis unfolding e using A [of p q] h 3 by simp
      qed
    qed
    have B': "\<forall>q. j - 1 < q \<and> q \<le> tp \<longrightarrow> f (?zs ! nat (j - 1)) (?zs ! nat q)"
    proof (intro allI impI)
      fix q assume h: "j - 1 < q \<and> q \<le> tp"
      have pb: "0 \<le> q" using h bnds jb by simp
      show "f (?zs ! nat (j - 1)) (?zs ! nat q)"
      proof (cases "q = j")
        case True
        show ?thesis unfolding True z1 z2 by (fact \<open>f (xs ! nat j) (xs ! nat (j - 1))\<close>)
      next
        case False
        have e: "?zs ! nat q = xs ! nat q" using z3 [of q] pb h False by simp
        have "f (xs ! nat j) (xs ! nat q)" using B [of q] h False by simp
        then show ?thesis unfolding z1 e .
      qed
    qed
    have n: "n = nat (j - 1 - bgn)" using Suc.hyps(2) by simp
    have b': "bgn \<le> j - 1" "j - 1 \<le> tp" "tp < int (length ?zs)"
      using bnds jb by simp_all
    from Suc.hyps(1) [OF n bnds(1) b' A' B' x(2) x(3), where tr = ?tr]
    obtain s' new where ih:
      "insertion_sift c bgn (j - 1) (s1, ?tr) = Inr (s', ?tr @ new)" "I s'"
      "length (\<alpha> s') = length ?zs" "mset (\<alpha> s') = mset ?zs"
      "\<forall>k. k < nat bgn \<or> nat tp < k \<longrightarrow> \<alpha> s' ! k = ?zs ! k"
      "\<forall>cl \<in> set new. call_within bgn (tp + 1) cl"
      "sorted_on f (\<alpha> s') bgn (tp + 1)"
      by blast
    have ms: "mset ?zs = mset xs"
      using mset_exchange [OF nj(1) nj(2)] by simp
    have frame: "\<forall>k. k < nat bgn \<or> nat tp < k \<longrightarrow> ?zs ! k = xs ! k"
      using bnds jb by (auto simp: nth_list_update)
    have calls: "\<forall>cl \<in> set ([LessCall j (j - 1), ExchangeCall j (j - 1)] @ new).
        call_within bgn (tp + 1) cl"
      using ih(6) bnds jb by auto
    show ?thesis
      using step ih(1,2,3,4,5,7) ms frame calls
      by (intro exI [of _ s'] exI [of _ "[LessCall j (j - 1), ExchangeCall j (j - 1)] @ new"])
         (simp del: set_append)
  qed
qed

lemma insertion_loop_sorted:
  assumes swo: "strict_weak_order f" and lv: "list_view c I \<alpha> f"
  shows "0 \<le> bgn \<Longrightarrow> bgn \<le> i \<Longrightarrow> i \<le> en \<Longrightarrow> en \<le> int (length xs) \<Longrightarrow>
    sorted_on f xs bgn i \<Longrightarrow> I s \<Longrightarrow> \<alpha> s = xs \<Longrightarrow>
    \<exists>s' new. insertion_loop c bgn en i (s, tr) = Inr (s', tr @ new) \<and> I s'
       \<and> length (\<alpha> s') = length xs \<and> mset (\<alpha> s') = mset xs
       \<and> (\<forall>k. k < nat bgn \<or> nat en \<le> k \<longrightarrow> \<alpha> s' ! k = xs ! k)
       \<and> (\<forall>cl \<in> set new. call_within bgn en cl)
       \<and> sorted_on f (\<alpha> s') bgn en"
proof (induction "nat (en - i)" arbitrary: i s xs tr)
  case 0
  then have "i = en" by simp
  then have "insertion_loop c bgn en i (s, tr) = Inr (s, tr @ [])"
    by (simp add: insertion_loop.simps)
  with "0.prems"(5,6,7) \<open>i = en\<close> show ?case
    by (intro exI [of _ s] exI [of _ "[]"]) simp
next
  case (Suc n)
  then have ien: "i < en" by simp
  have A: "\<forall>p q. bgn \<le> p \<and> p < q \<and> q \<le> i \<and> p \<noteq> i \<and> q \<noteq> i \<longrightarrow> \<not> f (xs ! nat q) (xs ! nat p)"
    using Suc.prems(5) unfolding sorted_on_def by auto
  have B: "\<forall>q. i < q \<and> q \<le> i \<longrightarrow> f (xs ! nat i) (xs ! nat q)" by auto
  have il: "i < int (length xs)" using ien Suc.prems by simp
  from insertion_sift_sorted [OF swo lv Suc.prems(1) Suc.prems(2) order_refl il A B
      Suc.prems(6) Suc.prems(7), where tr = tr]
  obtain s1 new1 where sift:
    "insertion_sift c bgn i (s, tr) = Inr (s1, tr @ new1)" "I s1"
    "length (\<alpha> s1) = length xs" "mset (\<alpha> s1) = mset xs"
    "\<forall>k. k < nat bgn \<or> nat i < k \<longrightarrow> \<alpha> s1 ! k = xs ! k"
    "\<forall>cl \<in> set new1. call_within bgn (i + 1) cl"
    "sorted_on f (\<alpha> s1) bgn (i + 1)"
    by blast
  have n: "n = nat (en - (i + 1))" using Suc.hyps(2) by simp
  have b1: "bgn \<le> i + 1" "i + 1 \<le> en" "en \<le> int (length (\<alpha> s1))"
    using Suc.prems ien sift(3) by simp_all
  from Suc.hyps(1) [OF n Suc.prems(1) b1 sift(7) sift(2) refl, where tr = "tr @ new1"]
  obtain s' new2 where rest:
    "insertion_loop c bgn en (i + 1) (s1, tr @ new1) = Inr (s', (tr @ new1) @ new2)" "I s'"
    "length (\<alpha> s') = length (\<alpha> s1)" "mset (\<alpha> s') = mset (\<alpha> s1)"
    "\<forall>k. k < nat bgn \<or> nat en \<le> k \<longrightarrow> \<alpha> s' ! k = \<alpha> s1 ! k"
    "\<forall>cl \<in> set new2. call_within bgn en cl"
    "sorted_on f (\<alpha> s') bgn en"
    by blast
  have run: "insertion_loop c bgn en i (s, tr) = Inr (s', tr @ (new1 @ new2))"
    using ien sift(1) rest(1) by (subst insertion_loop.simps) simp
  have frame: "\<forall>k. k < nat bgn \<or> nat en \<le> k \<longrightarrow> \<alpha> s' ! k = xs ! k"
  proof (intro allI impI)
    fix k assume k: "k < nat bgn \<or> nat en \<le> k"
    then have "k < nat bgn \<or> nat i < k" using ien Suc.prems(1,2) by auto
    then have "\<alpha> s1 ! k = xs ! k" using sift(5) by blast
    moreover have "\<alpha> s' ! k = \<alpha> s1 ! k" using rest(5) k by blast
    ultimately show "\<alpha> s' ! k = xs ! k" by simp
  qed
  have w: "\<And>cl. call_within bgn (i + 1) cl \<Longrightarrow> call_within bgn en cl"
    subgoal for cl using ien by (cases cl) auto
    done
  have calls: "\<forall>cl \<in> set (new1 @ new2). call_within bgn en cl"
    using sift(6) rest(6) w by auto
  show ?case
    using run rest(2,3,4,7) sift(3,4) frame calls
    by (intro exI [of _ s'] exI [of _ "new1 @ new2"]) (simp del: set_append)
qed

lemma sorted_on_empty: "hi \<le> lo + 1 \<Longrightarrow> sorted_on f xs lo hi"
  by (auto simp: sorted_on_def)

lemma Insertion_sorts:
  assumes swo: "strict_weak_order f" and lv: "list_view c I \<alpha> f"
    and rng: "0 \<le> bgn" "bgn \<le> en" "en \<le> int (length (\<alpha> s))" and Is: "I s"
  shows "\<exists>s' new. Insertion c bgn en (s, tr) = Inr (s', tr @ new) \<and> I s'
       \<and> length (\<alpha> s') = length (\<alpha> s) \<and> mset (\<alpha> s') = mset (\<alpha> s)
       \<and> (\<forall>k. k < nat bgn \<or> nat en \<le> k \<longrightarrow> \<alpha> s' ! k = \<alpha> s ! k)
       \<and> (\<forall>cl \<in> set new. call_within bgn en cl)
       \<and> sorted_on f (\<alpha> s') bgn en"
proof -
  have "sorted_on f (\<alpha> s) bgn bgn" by (simp add: sorted_on_empty)
  from insertion_loop_sorted [OF swo lv rng(1) order_refl rng(2) rng(3) this Is refl]
  show ?thesis unfolding Insertion_def .
qed

lemma range_elems_mset:
  assumes len: "length ys = length xs" and ms: "mset ys = mset xs"
    and frame: "\<forall>k. k < nat bgn \<or> nat en \<le> k \<longrightarrow> ys ! k = xs ! k"
    and rng: "0 \<le> bgn" "bgn \<le> en" "en \<le> int (length xs)"
  shows "mset (range_elems ys bgn en) = mset (range_elems xs bgn en)"
proof -
  let ?b = "nat bgn" and ?e = "nat en"
  have be: "?b \<le> ?e" "?e \<le> length xs" using rng by auto
  have split: "\<And>zs :: 'a list. zs = take ?b zs @ range_elems zs bgn en @ drop ?e zs"
  proof -
    fix zs :: "'a list"
    have "nat (en - bgn) = ?e - ?b" using rng by simp
    then have "range_elems zs bgn en @ drop ?e zs = drop ?b zs"
      unfolding range_elems_def using be
      by (metis append_take_drop_id drop_drop le_add_diff_inverse2)
    then show "zs = take ?b zs @ range_elems zs bgn en @ drop ?e zs" by simp
  qed
  have t: "take ?b ys = take ?b xs"
    using frame len be by (intro nth_take_lemma) auto
  have d: "drop ?e ys = drop ?e xs"
    using frame len be by (intro nth_equalityI) auto
  have "mset ys = mset (take ?b ys) + mset (range_elems ys bgn en) + mset (drop ?e ys)"
    using split [of ys] by (metis mset_append add.assoc)
  moreover have "mset xs = mset (take ?b xs) + mset (range_elems xs bgn en) + mset (drop ?e xs)"
    using split [of xs] by (metis mset_append add.assoc)
  ultimately show ?thesis using ms t d by simp
qed

section \<open>The increments of Shell\<close>

text \<open>
  The subtraction does not wrap for a range of a slice. From a value of the sequence
  1, 4, 13, ... the first loop stops at a value of the sequence, the first one that is
  not less than \<open>n / 3\<close>.
\<close>

lemma wrap_int64_idem: "wrap_int64 (wrap_int64 x) = wrap_int64 x"
  by (simp add: wrap_int64_def)

lemma wrap_int64_id: "- (2 ^ 63) \<le> x \<Longrightarrow> x < 2 ^ 63 \<Longrightarrow> wrap_int64 x = x"
  by (simp add: wrap_int64_def)

lemma gap_seq_pos: "1 \<le> gap_seq k"
  by (induction k) auto

lemma shell_gap_init_from_gap:
  "\<forall>j<k. gap_seq j < n sdiv 3 \<Longrightarrow>
   \<exists>k'. shell_gap_init n (gap_seq k) = gap_seq k' \<and> n sdiv 3 \<le> gap_seq k' \<and>
        (\<forall>j<k'. gap_seq j < n sdiv 3)"
proof (induction n "gap_seq k" arbitrary: k rule: shell_gap_init.induct)
  case (1 n)
  show ?case
  proof (cases "gap_seq k < n sdiv 3")
    case True
    have step: "shell_gap_init n (gap_seq k) = shell_gap_init n (gap_seq (Suc k))"
      using True gap_seq_pos [of k] by (subst shell_gap_init.simps) simp
    have below: "\<forall>j<Suc k. gap_seq j < n sdiv 3"
      using True "1.prems" by (simp add: less_Suc_eq)
    have "1 \<le> gap_seq k \<and> gap_seq k < n sdiv 3"
      using True gap_seq_pos [of k] by simp
    from "1.hyps" [OF this _ below] step show ?thesis by simp
  next
    case False
    then have "shell_gap_init n (gap_seq k) = gap_seq k"
      by (subst shell_gap_init.simps) simp
    with False "1.prems" show ?thesis by (intro exI [of _ k]) simp
  qed
qed

section \<open>Shell: the last pass and the calls\<close>

text \<open>
  With \<open>h = 1\<close> the gapped sift is the sift of \<^verbatim>\<open>Insertion\<close> with \<open>bgn = 0\<close>, and
  the pass is its outer loop. For every receiver, the calls of \<^verbatim>\<open>Shell\<close> are on
  positions of \<open>[0, n)\<close>, where \<open>n\<close> is \<open>end - bgn\<close>.
\<close>

lemma shell_sift_gap1: "shell_sift c 1 j st = insertion_sift c 0 j st"
proof (induction "nat j" arbitrary: j st)
  case 0
  then show ?case by (simp add: shell_sift.simps insertion_sift.simps)
next
  case (Suc n)
  then have n: "n = nat (j - 1)" and j: "1 \<le> j" by simp_all
  show ?case
    using j Suc.hyps(1) [OF n]
    by (subst shell_sift.simps, subst insertion_sift.simps) (simp split: sum.splits)
qed

lemma shell_pass_gap1: "shell_pass c n 1 i st = insertion_loop c 0 n i st"
proof (induction "nat (n - i)" arbitrary: i st)
  case 0
  then show ?case by (simp add: shell_pass.simps insertion_loop.simps)
next
  case (Suc k)
  then have k: "k = nat (n - (i + 1))" and i: "i < n" by simp_all
  show ?case
    using i Suc.hyps(1) [OF k]
    by (subst shell_pass.simps, subst insertion_loop.simps)
       (simp add: shell_sift_gap1 split: sum.splits)
qed

lemma do_Less_calls:
  "do_Less c i j st = Inr r \<Longrightarrow> snd (snd r) = snd st @ [LessCall i j]"
  by (auto simp: do_Less_def split: sum.splits)

lemma do_Exchange_calls:
  "do_Exchange c i j st = Inr st' \<Longrightarrow> snd st' = snd st @ [ExchangeCall i j]"
  by (auto simp: do_Exchange_def split: sum.splits)

lemma shell_sift_calls:
  "shell_sift c h j st = Inr st' \<Longrightarrow> j < n \<Longrightarrow>
   \<exists>new. snd st' = snd st @ new \<and> (\<forall>cl \<in> set new. call_within 0 n cl)"
proof (induction "nat j" arbitrary: j st rule: less_induct)
  case less
  show ?case
  proof (cases "1 \<le> h \<and> h \<le> j")
    case False
    then have "st' = st" using less.prems(1) by (subst (asm) shell_sift.simps) auto
    then show ?thesis by simp
  next
    case True
    from True less.prems(1) obtain r where r: "do_Less c j (j - h) st = Inr r"
      by (subst (asm) shell_sift.simps) (auto split: sum.splits)
    note c1 = do_Less_calls [OF r]
    have w1: "call_within 0 n (LessCall j (j - h))" using True less.prems(2) by simp
    show ?thesis
    proof (cases "fst r")
      case False
      then have "st' = snd r" using True r less.prems(1)
        by (subst (asm) shell_sift.simps) auto
      then show ?thesis using c1 w1 by (intro exI [of _ "[LessCall j (j - h)]"]) simp
    next
      case fr: True
      from True r fr less.prems(1) obtain st1 where
        x: "do_Exchange c j (j - h) (snd r) = Inr st1" and
        rest: "shell_sift c h (j - h) st1 = Inr st'"
        by (subst (asm) shell_sift.simps) (auto split: sum.splits)
      note c2 = do_Exchange_calls [OF x]
      have w2: "call_within 0 n (ExchangeCall j (j - h))" using True less.prems(2) by simp
      have "nat (j - h) < nat j" "j - h < n" using True less.prems(2) by auto
      from less.hyps [OF this(1) rest this(2)] obtain new where
        new: "snd st' = snd st1 @ new" "\<forall>cl \<in> set new. call_within 0 n cl" by blast
      show ?thesis
        using new c1 c2 w1 w2
        by (intro exI [of _ "[LessCall j (j - h), ExchangeCall j (j - h)] @ new"]) simp
    qed
  qed
qed

lemma shell_pass_calls:
  "shell_pass c n h i st = Inr st' \<Longrightarrow>
   \<exists>new. snd st' = snd st @ new \<and> (\<forall>cl \<in> set new. call_within 0 n cl)"
proof (induction "nat (n - i)" arbitrary: i st)
  case 0
  then have "st' = st" by (subst (asm) shell_pass.simps) auto
  then show ?case by simp
next
  case (Suc k)
  then have k: "k = nat (n - (i + 1))" and i: "i < n" by simp_all
  from i Suc.prems obtain st1 where
    s: "shell_sift c h i st = Inr st1" and rest: "shell_pass c n h (i + 1) st1 = Inr st'"
    by (subst (asm) shell_pass.simps) (auto split: sum.splits)
  from shell_sift_calls [OF s i] obtain new1 where
    n1: "snd st1 = snd st @ new1" "\<forall>cl \<in> set new1. call_within 0 n cl" by blast
  from Suc.hyps(1) [OF k rest] obtain new2 where
    n2: "snd st' = snd st1 @ new2" "\<forall>cl \<in> set new2. call_within 0 n cl" by blast
  show ?case using n1 n2 by (intro exI [of _ "new1 @ new2"]) auto
qed

lemma shell_loop_calls:
  "shell_loop c n h st = Inr st' \<Longrightarrow>
   \<exists>new. snd st' = snd st @ new \<and> (\<forall>cl \<in> set new. call_within 0 n cl)"
proof (induction "nat h" arbitrary: h st rule: less_induct)
  case less
  show ?case
  proof (cases "1 \<le> h")
    case False
    then have "st' = st" using less.prems by (subst (asm) shell_loop.simps) auto
    then show ?thesis by simp
  next
    case True
    from True less.prems obtain st1 where
      p: "shell_pass c n h h st = Inr st1" and rest: "shell_loop c n (h sdiv 3) st1 = Inr st'"
      by (subst (asm) shell_loop.simps) (auto split: sum.splits)
    from shell_pass_calls [OF p] obtain new1 where
      n1: "snd st1 = snd st @ new1" "\<forall>cl \<in> set new1. call_within 0 n cl" by blast
    have "nat (h sdiv 3) < nat h" using True by (simp add: signed_divide_int_def)
    from less.hyps [OF this rest] obtain new2 where
      n2: "snd st' = snd st1 @ new2" "\<forall>cl \<in> set new2. call_within 0 n cl" by blast
    show ?thesis using n1 n2 by (intro exI [of _ "new1 @ new2"]) auto
  qed
qed

lemma Shell_calls:
  "Shell c bgn en st = Inr st' \<Longrightarrow>
   \<exists>new. snd st' = snd st @ new \<and> (\<forall>cl \<in> set new. call_within 0 (wrap_int64 (en - bgn)) cl)"
  unfolding Shell_def Let_def by (rule shell_loop_calls)

section \<open>Shell sorts from position zero\<close>

text \<open>
  On a receiver that stands for a list of at least \<open>n\<close> elements every pass returns,
  keeps the elements and leaves the positions from \<open>n\<close> on alone. The increments go
  down the sequence to 1 (\<open>(3 * g + 1) / 3 = g\<close>), so the last pass is the one with
  \<open>h = 1\<close>, which leaves \<open>[0, n)\<close> in order.
\<close>

lemma shell_sift_view:
  assumes lv: "list_view c I \<alpha> f"
  shows "1 \<le> h \<Longrightarrow> j < n \<Longrightarrow> n \<le> int (length xs) \<Longrightarrow> I s \<Longrightarrow> \<alpha> s = xs \<Longrightarrow>
   \<exists>s' tr'. shell_sift c h j (s, tr) = Inr (s', tr') \<and> I s'
      \<and> length (\<alpha> s') = length xs \<and> mset (\<alpha> s') = mset xs
      \<and> (\<forall>k. nat n \<le> k \<longrightarrow> \<alpha> s' ! k = xs ! k)"
proof (induction "nat j" arbitrary: j s xs tr rule: less_induct)
  case less
  note Is = less.prems(4) and ax = less.prems(5)
  show ?case
  proof (cases "h \<le> j")
    case False
    then have "shell_sift c h j (s, tr) = Inr (s, tr)"
      by (subst shell_sift.simps) simp
    then show ?thesis using Is ax by (intro exI [of _ s] exI [of _ tr]) simp
  next
    case True
    have bj: "in_bounds xs j" and bjh: "in_bounds xs (j - h)"
      using True less.prems(1-3) by (auto simp: in_bounds_def)
    note less_call = do_Less_view [OF lv Is ax bj bjh, where tr = tr]
    show ?thesis
    proof (cases "f (xs ! nat j) (xs ! nat (j - h))")
      case False
      have "shell_sift c h j (s, tr) = Inr (s, tr @ [LessCall j (j - h)])"
        using True False less.prems(1)
        by (subst shell_sift.simps) (simp add: less_call)
      then show ?thesis using Is ax
        by (intro exI [of _ s] exI [of _ "tr @ [LessCall j (j - h)]"]) simp
    next
      case lt: True
      let ?zs = "xs[nat j := xs ! nat (j - h), nat (j - h) := xs ! nat j]"
      let ?tr = "tr @ [LessCall j (j - h), ExchangeCall j (j - h)]"
      have nj: "nat j < length xs" "nat (j - h) < length xs" "nat j < nat n"
        using True less.prems(1-3) by auto
      from do_Exchange_view [OF lv Is ax bj bjh, where tr = "tr @ [LessCall j (j - h)]"]
      obtain s1 where x:
        "do_Exchange c j (j - h) (s, tr @ [LessCall j (j - h)]) = Inr (s1, ?tr)"
        "I s1" "\<alpha> s1 = ?zs"
        by auto
      have step: "shell_sift c h j (s, tr) = shell_sift c h (j - h) (s1, ?tr)"
        using True lt less.prems(1)
        by (subst shell_sift.simps) (simp add: less_call x(1))
      have d: "nat (j - h) < nat j" "j - h < n" "n \<le> int (length ?zs)"
        using True less.prems(1-3) by auto
      from less.hyps [OF d(1) less.prems(1) d(2) d(3) x(2) x(3), where tr = ?tr]
      obtain s' tr' where ih:
        "shell_sift c h (j - h) (s1, ?tr) = Inr (s', tr')" "I s'"
        "length (\<alpha> s') = length ?zs" "mset (\<alpha> s') = mset ?zs"
        "\<forall>k. nat n \<le> k \<longrightarrow> \<alpha> s' ! k = ?zs ! k"
        by blast
      have ms: "mset ?zs = mset xs"
        using mset_exchange [OF nj(1) nj(2)] by simp
      have frame: "\<forall>k. nat n \<le> k \<longrightarrow> ?zs ! k = xs ! k"
        using nj d by (auto simp: nth_list_update)
      show ?thesis
        using step ih ms frame by (intro exI [of _ s'] exI [of _ tr']) simp
    qed
  qed
qed

lemma shell_pass_view:
  assumes lv: "list_view c I \<alpha> f"
  shows "1 \<le> h \<Longrightarrow> n \<le> int (length xs) \<Longrightarrow> I s \<Longrightarrow> \<alpha> s = xs \<Longrightarrow>
   \<exists>s' tr'. shell_pass c n h i (s, tr) = Inr (s', tr') \<and> I s'
      \<and> length (\<alpha> s') = length xs \<and> mset (\<alpha> s') = mset xs
      \<and> (\<forall>k. nat n \<le> k \<longrightarrow> \<alpha> s' ! k = xs ! k)"
proof (induction "nat (n - i)" arbitrary: i s xs tr)
  case 0
  then have "shell_pass c n h i (s, tr) = Inr (s, tr)"
    by (subst shell_pass.simps) simp
  then show ?case using "0.prems"(3,4) by (intro exI [of _ s] exI [of _ tr]) simp
next
  case (Suc k)
  then have k: "k = nat (n - (i + 1))" and i: "i < n" by simp_all
  from shell_sift_view [OF lv Suc.prems(1) i Suc.prems(2) Suc.prems(3) Suc.prems(4), where tr = tr]
  obtain s1 tr1 where sf:
    "shell_sift c h i (s, tr) = Inr (s1, tr1)" "I s1"
    "length (\<alpha> s1) = length xs" "mset (\<alpha> s1) = mset xs"
    "\<forall>k. nat n \<le> k \<longrightarrow> \<alpha> s1 ! k = xs ! k"
    by blast
  have "n \<le> int (length (\<alpha> s1))" using sf(3) Suc.prems(2) by simp
  from Suc.hyps(1) [OF k Suc.prems(1) this sf(2) refl, where tr = tr1]
  obtain s' tr' where r:
    "shell_pass c n h (i + 1) (s1, tr1) = Inr (s', tr')" "I s'"
    "length (\<alpha> s') = length (\<alpha> s1)" "mset (\<alpha> s') = mset (\<alpha> s1)"
    "\<forall>k. nat n \<le> k \<longrightarrow> \<alpha> s' ! k = \<alpha> s1 ! k"
    by blast
  have "shell_pass c n h i (s, tr) = Inr (s', tr')"
    using i sf(1) r(1) by (subst shell_pass.simps) simp
  then show ?case using sf r by (intro exI [of _ s'] exI [of _ tr']) simp
qed

lemma gap_seq_sdiv: "gap_seq (Suc k) sdiv 3 = gap_seq k"
  using gap_seq_pos [of k] by (simp add: signed_divide_int_def)

lemma shell_loop_zero: "shell_loop c n 0 st = Inr st"
  by (subst shell_loop.simps) simp

lemma shell_loop_one:
  "shell_loop c n 1 st
     = (case shell_pass c n 1 1 st of Inl e \<Rightarrow> Inl e | Inr st' \<Rightarrow> Inr st')"
  by (subst shell_loop.simps) (simp add: shell_loop_zero signed_divide_int_def split: sum.splits)

lemma shell_loop_sorts:
  assumes swo: "strict_weak_order f" and lv: "list_view c I \<alpha> f"
  shows "0 \<le> n \<Longrightarrow> n \<le> int (length xs) \<Longrightarrow> I s \<Longrightarrow> \<alpha> s = xs \<Longrightarrow>
   \<exists>s' tr'. shell_loop c n (gap_seq k) (s, tr) = Inr (s', tr') \<and> I s'
      \<and> length (\<alpha> s') = length xs \<and> mset (\<alpha> s') = mset xs
      \<and> (\<forall>k. nat n \<le> k \<longrightarrow> \<alpha> s' ! k = xs ! k)
      \<and> sorted_on f (\<alpha> s') 0 n"
proof (induction k arbitrary: s xs tr)
  case 0
  note Is = "0.prems"(3) and ax = "0.prems"(4)
  show ?case
  proof (cases "1 \<le> n")
    case False
    then have "shell_loop c n (gap_seq 0) (s, tr) = Inr (s, tr)"
      by (simp add: shell_loop_one shell_pass.simps)
    moreover have "sorted_on f xs 0 n" using False by (simp add: sorted_on_empty)
    ultimately show ?thesis using Is ax by (intro exI [of _ s] exI [of _ tr]) simp
  next
    case True
    have "sorted_on f xs 0 1" by (simp add: sorted_on_empty)
    from insertion_loop_sorted [OF swo lv order_refl _ True "0.prems"(2) this Is ax, where tr = tr]
    obtain s' new where r:
      "insertion_loop c 0 n 1 (s, tr) = Inr (s', tr @ new)" "I s'"
      "length (\<alpha> s') = length xs" "mset (\<alpha> s') = mset xs"
      "\<forall>k. k < nat 0 \<or> nat n \<le> k \<longrightarrow> \<alpha> s' ! k = xs ! k"
      "sorted_on f (\<alpha> s') 0 n"
      by auto
    have "shell_loop c n (gap_seq 0) (s, tr) = Inr (s', tr @ new)"
      using r(1) by (simp add: shell_loop_one shell_pass_gap1)
    then show ?thesis using r by (intro exI [of _ s'] exI [of _ "tr @ new"]) simp
  qed
next
  case (Suc k)
  have g: "1 \<le> gap_seq (Suc k)" by (rule gap_seq_pos)
  from shell_pass_view [OF lv g Suc.prems(2) Suc.prems(3) Suc.prems(4),
      where i = "gap_seq (Suc k)" and tr = tr]
  obtain s1 tr1 where p:
    "shell_pass c n (gap_seq (Suc k)) (gap_seq (Suc k)) (s, tr) = Inr (s1, tr1)" "I s1"
    "length (\<alpha> s1) = length xs" "mset (\<alpha> s1) = mset xs"
    "\<forall>k. nat n \<le> k \<longrightarrow> \<alpha> s1 ! k = xs ! k"
    by blast
  have "n \<le> int (length (\<alpha> s1))" using p(3) Suc.prems(2) by simp
  from Suc.IH [OF Suc.prems(1) this p(2) refl, where tr = tr1]
  obtain s' tr' where r:
    "shell_loop c n (gap_seq k) (s1, tr1) = Inr (s', tr')" "I s'"
    "length (\<alpha> s') = length (\<alpha> s1)" "mset (\<alpha> s') = mset (\<alpha> s1)"
    "\<forall>k. nat n \<le> k \<longrightarrow> \<alpha> s' ! k = \<alpha> s1 ! k"
    "sorted_on f (\<alpha> s') 0 n"
    by blast
  have "shell_loop c n (gap_seq (Suc k)) (s, tr) = Inr (s', tr')"
    using p(1) r(1) gap_seq_pos [of "Suc k"] gap_seq_sdiv [of k]
    by (subst shell_loop.simps) (simp del: gap_seq.simps)
  then show ?case using p r by (intro exI [of _ s'] exI [of _ tr']) simp
qed

lemma Shell_sorts_from_zero:
  assumes swo: "strict_weak_order f" and lv: "list_view c I \<alpha> f"
    and rng: "0 \<le> hi" "hi \<le> int (length (\<alpha> s))" "int (length (\<alpha> s)) < 2 ^ 63"
    and Is: "I s"
  shows "\<exists>s' tr'. Shell c 0 hi (s, tr) = Inr (s', tr') \<and> I s'
      \<and> length (\<alpha> s') = length (\<alpha> s) \<and> mset (\<alpha> s') = mset (\<alpha> s)
      \<and> (\<forall>k. nat hi \<le> k \<longrightarrow> \<alpha> s' ! k = \<alpha> s ! k)
      \<and> sorted_on f (\<alpha> s') 0 hi"
proof -
  have w: "wrap_int64 (hi - 0) = hi"
    using rng by (simp add: wrap_int64_id)
  from shell_gap_init_from_gap [of 0 hi] obtain k where
    k: "shell_gap_init hi 1 = gap_seq k" by auto
  show ?thesis
    unfolding Shell_def Let_def w k
    by (rule shell_loop_sorts [OF swo lv rng(1) rng(2) Is refl])
qed

section \<open>Selection permutes its range\<close>

text \<open>
  On a receiver that stands for a list and a range of it, \<^verbatim>\<open>Selection\<close> returns, every
  call is on positions of the range, the elements are the same ones, and the positions
  outside the range keep their elements. (It need not leave the range in order.)
\<close>

lemma call_within_mono:
  "call_within lo hi cl \<Longrightarrow> lo' \<le> lo \<Longrightarrow> hi \<le> hi' \<Longrightarrow> call_within lo' hi' cl"
  by (cases cl) auto

lemma selection_scan_view:
  assumes lv: "list_view c I \<alpha> f" and Is: "I s" and ax: "\<alpha> s = xs"
  shows "0 \<le> mn \<Longrightarrow> mn < j \<Longrightarrow> j \<le> en \<Longrightarrow> en \<le> int (length xs) \<Longrightarrow>
   \<exists>mn' new. selection_scan c en j mn (s, tr) = Inr (mn', (s, tr @ new))
      \<and> mn \<le> mn' \<and> mn' < en
      \<and> (\<forall>cl \<in> set new. call_within mn en cl)"
proof (induction "nat (en - j)" arbitrary: j mn tr)
  case 0
  then have "selection_scan c en j mn (s, tr) = Inr (mn, (s, tr @ []))"
    by (subst selection_scan.simps) simp
  then show ?case using "0.prems" by (intro exI [of _ mn] exI [of _ "[]"]) simp
next
  case (Suc n)
  then have jen: "j < en" by simp
  have bj: "in_bounds xs j" and bm: "in_bounds xs mn"
    using Suc.prems jen by (auto simp: in_bounds_def)
  note less_call = do_Less_view [OF lv Is ax bj bm, where tr = tr]
  have w: "call_within mn en (LessCall j mn)" using Suc.prems jen by simp
  show ?case
  proof (cases "f (xs ! nat j) (xs ! nat mn)")
    case False
    then have "selection_scan c en j mn (s, tr) = Inr (mn, (s, tr @ [LessCall j mn]))"
      using jen by (subst selection_scan.simps) (simp add: less_call)
    then show ?thesis using Suc.prems jen w
      by (intro exI [of _ mn] exI [of _ "[LessCall j mn]"]) simp
  next
    case True
    have step: "selection_scan c en j mn (s, tr)
        = selection_scan c en (j + 1) j (s, tr @ [LessCall j mn])"
      using jen True by (subst selection_scan.simps) (simp add: less_call)
    have n: "n = nat (en - (j + 1))" using Suc.hyps(2) by simp
    have p: "0 \<le> j" "j < j + 1" "j + 1 \<le> en" using Suc.prems jen by simp_all
    from Suc.hyps(1) [OF n p Suc.prems(4), where tr = "tr @ [LessCall j mn]"]
    obtain mn' new where ih:
      "selection_scan c en (j + 1) j (s, tr @ [LessCall j mn])
        = Inr (mn', (s, (tr @ [LessCall j mn]) @ new))"
      "j \<le> mn'" "mn' < en" "\<forall>cl \<in> set new. call_within j en cl"
      by blast
    have "\<forall>cl \<in> set new. call_within mn en cl"
      using ih(4) Suc.prems(2) call_within_mono [where lo' = mn and hi' = en and lo = j and hi = en]
      by auto
    then have calls: "\<forall>cl \<in> set (LessCall j mn # new). call_within mn en cl"
      using w by simp
    show ?thesis
      using step ih(1,2,3) calls Suc.prems(2)
      by (intro exI [of _ mn'] exI [of _ "LessCall j mn # new"]) simp
  qed
qed

lemma selection_loop_view:
  assumes lv: "list_view c I \<alpha> f"
  shows "0 \<le> bgn \<Longrightarrow> bgn \<le> i \<Longrightarrow> i \<le> en \<Longrightarrow> en \<le> int (length xs) \<Longrightarrow> I s \<Longrightarrow> \<alpha> s = xs \<Longrightarrow>
   \<exists>s' new. selection_loop c en i (s, tr) = Inr (s', tr @ new) \<and> I s'
      \<and> length (\<alpha> s') = length xs \<and> mset (\<alpha> s') = mset xs
      \<and> (\<forall>k. k < nat bgn \<or> nat en \<le> k \<longrightarrow> \<alpha> s' ! k = xs ! k)
      \<and> (\<forall>cl \<in> set new. call_within bgn en cl)"
proof (induction "nat (en - i)" arbitrary: i s xs tr)
  case 0
  then have "selection_loop c en i (s, tr) = Inr (s, tr @ [])"
    by (subst selection_loop.simps) simp
  then show ?case using "0.prems"(5,6) by (intro exI [of _ s] exI [of _ "[]"]) simp
next
  case (Suc n)
  then have ien: "i < en" by simp
  note Is = Suc.prems(5) and ax = Suc.prems(6)
  have i0: "0 \<le> i" using Suc.prems by simp
  have p0: "i < i + 1" "i + 1 \<le> en" using ien by simp_all
  from selection_scan_view [OF lv Is ax i0 p0 Suc.prems(4), where tr = tr]
  obtain mn new1 where scan:
    "selection_scan c en (i + 1) i (s, tr) = Inr (mn, (s, tr @ new1))"
    "i \<le> mn" "mn < en" "\<forall>cl \<in> set new1. call_within i en cl"
    by auto
  let ?zs = "xs[nat i := xs ! nat mn, nat mn := xs ! nat i]"
  let ?tr = "(tr @ new1) @ [ExchangeCall i mn]"
  have bi: "in_bounds xs i" and bm: "in_bounds xs mn"
    using Suc.prems(1-4) ien scan(2,3) by (auto simp: in_bounds_def)
  from do_Exchange_view [OF lv Is ax bi bm, where tr = "tr @ new1"]
  obtain s1 where x:
    "do_Exchange c i mn (s, tr @ new1) = Inr (s1, ?tr)" "I s1" "\<alpha> s1 = ?zs"
    by auto
  have ni: "nat i < length xs" "nat mn < length xs"
    using Suc.prems(1-4) ien scan(2,3) by auto
  have ms: "mset ?zs = mset xs" using mset_exchange [OF ni] by simp
  have frame1: "\<forall>k. k < nat bgn \<or> nat en \<le> k \<longrightarrow> ?zs ! k = xs ! k"
    using Suc.prems(1-4) ien scan(2,3) by (auto simp: nth_list_update)
  have n: "n = nat (en - (i + 1))" using Suc.hyps(2) by simp
  have p: "bgn \<le> i + 1" "i + 1 \<le> en" "en \<le> int (length ?zs)"
    using Suc.prems(1-4) ien by simp_all
  from Suc.hyps(1) [OF n Suc.prems(1) p x(2) x(3), where tr = ?tr]
  obtain s' new2 where rest:
    "selection_loop c en (i + 1) (s1, ?tr) = Inr (s', ?tr @ new2)" "I s'"
    "length (\<alpha> s') = length ?zs" "mset (\<alpha> s') = mset ?zs"
    "\<forall>k. k < nat bgn \<or> nat en \<le> k \<longrightarrow> \<alpha> s' ! k = ?zs ! k"
    "\<forall>cl \<in> set new2. call_within bgn en cl"
    by blast
  have run: "selection_loop c en i (s, tr)
      = Inr (s', tr @ (new1 @ [ExchangeCall i mn] @ new2))"
    using ien scan(1) x(1) rest(1)
    by (subst selection_loop.simps) simp
  have "\<forall>cl \<in> set new1. call_within bgn en cl"
    using scan(4) Suc.prems(2) call_within_mono [where lo' = bgn and hi' = en and lo = i and hi = en]
    by auto
  moreover have "call_within bgn en (ExchangeCall i mn)"
    using Suc.prems(1-4) scan(2,3) by simp
  ultimately have calls: "\<forall>cl \<in> set (new1 @ [ExchangeCall i mn] @ new2). call_within bgn en cl"
    using rest(6) by auto
  have frame: "\<forall>k. k < nat bgn \<or> nat en \<le> k \<longrightarrow> \<alpha> s' ! k = xs ! k"
    using rest(5) frame1 by simp
  show ?case
    using run rest(2,3,4) ms frame calls
    by (intro exI [of _ s'] exI [of _ "new1 @ [ExchangeCall i mn] @ new2"])
       (simp del: set_append)
qed

lemma Selection_permutes:
  assumes lv: "list_view c I \<alpha> f"
    and rng: "0 \<le> bgn" "bgn \<le> en" "en \<le> int (length (\<alpha> s))" and Is: "I s"
  shows "\<exists>s' new. Selection c bgn en (s, tr) = Inr (s', tr @ new) \<and> I s'
      \<and> length (\<alpha> s') = length (\<alpha> s) \<and> mset (\<alpha> s') = mset (\<alpha> s)
      \<and> (\<forall>k. k < nat bgn \<or> nat en \<le> k \<longrightarrow> \<alpha> s' ! k = \<alpha> s ! k)
      \<and> (\<forall>cl \<in> set new. call_within bgn en cl)"
  unfolding Selection_def
  by (rule selection_loop_view [OF lv rng(1) order_refl rng(2) rng(3) Is refl])

section \<open>Ranges that are already in order\<close>

text \<open>
  Under a strict weak ordering, a range whose adjacent positions are in order has all
  its positions in order.
\<close>

lemma sorted_on_nondecreasing: "sorted_on f xs lo hi \<Longrightarrow> nondecreasing f xs lo hi"
  by (auto simp: sorted_on_def nondecreasing_def)

lemma nondecreasing_sorted_on:
  assumes swo: "strict_weak_order f" and nd: "nondecreasing f xs lo hi"
  shows "sorted_on f xs lo hi"
proof -
  have ntrans: "\<And>a b c. \<not> f a b \<Longrightarrow> \<not> f b c \<Longrightarrow> \<not> f a c"
    using swo unfolding strict_weak_order_def by blast
  have adj: "\<And>k. lo \<le> k \<Longrightarrow> k < hi - 1 \<Longrightarrow> \<not> f (xs ! nat (k + 1)) (xs ! nat k)"
    using nd unfolding nondecreasing_def by simp
  have pairs: "lo \<le> p \<Longrightarrow> p < q \<Longrightarrow> q < hi \<Longrightarrow> \<not> f (xs ! nat q) (xs ! nat p)" for p q
  proof (induction "nat (q - p)" arbitrary: q)
    case 0
    then show ?case by simp
  next
    case (Suc n)
    show ?case
    proof (cases "q = p + 1")
      case True
      then show ?thesis using adj [of p] Suc.prems by simp
    next
      case False
      have n: "n = nat (q - 1 - p)" using Suc.hyps(2) by simp
      have "p < q - 1" "q - 1 < hi" using False Suc.prems by simp_all
      from Suc.hyps(1) [OF n Suc.prems(1) this]
      have a: "\<not> f (xs ! nat (q - 1)) (xs ! nat p)" .
      have "\<not> f (xs ! nat (q - 1 + 1)) (xs ! nat (q - 1))"
        using adj [of "q - 1"] Suc.prems by simp
      then have b: "\<not> f (xs ! nat q) (xs ! nat (q - 1))" by simp
      from ntrans [OF b a] show ?thesis .
    qed
  qed
  show ?thesis unfolding sorted_on_def using pairs by auto
qed

text \<open>
  On such a range \<^verbatim>\<open>Insertion\<close> only compares, and \<^verbatim>\<open>Selection\<close> only compares and
  exchanges a position with itself; the elements stay where they are. \<^verbatim>\<open>Shell\<close> with
  \<open>bgn = 0\<close> only compares.
\<close>

lemma insertion_loop_on_sorted:
  assumes lv: "list_view c I \<alpha> f" and Is: "I s" and ax: "\<alpha> s = xs"
  shows "0 \<le> bgn \<Longrightarrow> bgn \<le> i \<Longrightarrow> i \<le> en \<Longrightarrow> en \<le> int (length xs) \<Longrightarrow>
   nondecreasing f xs bgn en \<Longrightarrow>
   \<exists>new. insertion_loop c bgn en i (s, tr) = Inr (s, tr @ new)
      \<and> (\<forall>cl \<in> set new. is_LessCall cl)"
proof (induction "nat (en - i)" arbitrary: i tr)
  case 0
  then have "insertion_loop c bgn en i (s, tr) = Inr (s, tr @ [])"
    by (subst insertion_loop.simps) simp
  then show ?case by (intro exI [of _ "[]"]) simp
next
  case (Suc n)
  then have ien: "i < en" by simp
  have "\<exists>new1. insertion_sift c bgn i (s, tr) = Inr (s, tr @ new1)
      \<and> (\<forall>cl \<in> set new1. is_LessCall cl)"
  proof (cases "bgn < i")
    case False
    then have "insertion_sift c bgn i (s, tr) = Inr (s, tr @ [])"
      by (subst insertion_sift.simps) simp
    then show ?thesis by (intro exI [of _ "[]"]) simp
  next
    case True
    have bi: "in_bounds xs i" and bi1: "in_bounds xs (i - 1)"
      using Suc.prems True ien by (auto simp: in_bounds_def)
    have adj: "\<And>k. bgn \<le> k \<Longrightarrow> k < en - 1 \<Longrightarrow> \<not> f (xs ! nat (k + 1)) (xs ! nat k)"
      using Suc.prems(5) unfolding nondecreasing_def by simp
    have "\<not> f (xs ! nat (i - 1 + 1)) (xs ! nat (i - 1))"
      using True ien by (intro adj) simp_all
    then have "\<not> f (xs ! nat i) (xs ! nat (i - 1))" by simp
    then have "insertion_sift c bgn i (s, tr) = Inr (s, tr @ [LessCall i (i - 1)])"
      using True
      by (subst insertion_sift.simps) (simp add: do_Less_view [OF lv Is ax bi bi1])
    then show ?thesis by (intro exI [of _ "[LessCall i (i - 1)]"]) simp
  qed
  then obtain new1 where sift:
    "insertion_sift c bgn i (s, tr) = Inr (s, tr @ new1)"
    "\<forall>cl \<in> set new1. is_LessCall cl"
    by blast
  have n: "n = nat (en - (i + 1))" using Suc.hyps(2) by simp
  have p: "bgn \<le> i + 1" "i + 1 \<le> en" using Suc.prems ien by simp_all
  from Suc.hyps(1) [OF n Suc.prems(1) p Suc.prems(4) Suc.prems(5), where tr = "tr @ new1"]
  obtain new2 where rest:
    "insertion_loop c bgn en (i + 1) (s, tr @ new1) = Inr (s, (tr @ new1) @ new2)"
    "\<forall>cl \<in> set new2. is_LessCall cl"
    by blast
  have "insertion_loop c bgn en i (s, tr) = Inr (s, tr @ (new1 @ new2))"
    using ien sift(1) rest(1) by (subst insertion_loop.simps) simp
  then show ?case using sift(2) rest(2) by (intro exI [of _ "new1 @ new2"]) auto
qed

lemma Insertion_on_sorted:
  assumes lv: "list_view c I \<alpha> f" and Is: "I s"
    and rng: "0 \<le> bgn" "bgn \<le> en" "en \<le> int (length (\<alpha> s))"
    and nd: "nondecreasing f (\<alpha> s) bgn en"
  shows "\<exists>new. Insertion c bgn en (s, tr) = Inr (s, tr @ new)
      \<and> (\<forall>cl \<in> set new. is_LessCall cl)"
  unfolding Insertion_def
  by (rule insertion_loop_on_sorted [OF lv Is refl rng(1) order_refl rng(2) rng(3) nd])

lemma selection_loop_on_sorted:
  assumes lv: "list_view c I \<alpha> f"
  shows "0 \<le> i \<Longrightarrow> bgn \<le> i \<Longrightarrow> i \<le> en \<Longrightarrow> en \<le> int (length xs) \<Longrightarrow>
   nondecreasing f xs bgn en \<Longrightarrow> I s \<Longrightarrow> \<alpha> s = xs \<Longrightarrow>
   \<exists>s' new. selection_loop c en i (s, tr) = Inr (s', tr @ new) \<and> I s' \<and> \<alpha> s' = xs
      \<and> (\<forall>cl \<in> set new. no_move cl)"
proof (induction "nat (en - i)" arbitrary: i s tr)
  case 0
  then have "selection_loop c en i (s, tr) = Inr (s, tr @ [])"
    by (subst selection_loop.simps) simp
  then show ?case using "0.prems"(6,7) by (intro exI [of _ s] exI [of _ "[]"]) simp
next
  case (Suc n)
  then have ien: "i < en" by simp
  note Is = Suc.prems(6) and ax = Suc.prems(7)
  have bi: "in_bounds xs i" using Suc.prems(1-4) ien by (simp add: in_bounds_def)
  have "\<exists>new1. selection_scan c en (i + 1) i (s, tr) = Inr (i, (s, tr @ new1))
      \<and> (\<forall>cl \<in> set new1. no_move cl)"
  proof (cases "i + 1 < en")
    case False
    then have "selection_scan c en (i + 1) i (s, tr) = Inr (i, (s, tr @ []))"
      by (subst selection_scan.simps) simp
    then show ?thesis by (intro exI [of _ "[]"]) simp
  next
    case True
    have bi1: "in_bounds xs (i + 1)"
      using Suc.prems(1-4) True by (simp add: in_bounds_def)
    have adj: "\<And>k. bgn \<le> k \<Longrightarrow> k < en - 1 \<Longrightarrow> \<not> f (xs ! nat (k + 1)) (xs ! nat k)"
      using Suc.prems(5) unfolding nondecreasing_def by simp
    have "\<not> f (xs ! nat (i + 1)) (xs ! nat i)"
      using Suc.prems(2) True by (intro adj) simp_all
    then have "selection_scan c en (i + 1) i (s, tr)
        = Inr (i, (s, tr @ [LessCall (i + 1) i]))"
      using True
      by (subst selection_scan.simps) (simp add: do_Less_view [OF lv Is ax bi1 bi])
    then show ?thesis by (intro exI [of _ "[LessCall (i + 1) i]"]) simp
  qed
  then obtain new1 where scan:
    "selection_scan c en (i + 1) i (s, tr) = Inr (i, (s, tr @ new1))"
    "\<forall>cl \<in> set new1. no_move cl"
    by blast
  let ?tr = "(tr @ new1) @ [ExchangeCall i i]"
  from do_Exchange_view [OF lv Is ax bi bi, where tr = "tr @ new1"]
  obtain s1 where x: "do_Exchange c i i (s, tr @ new1) = Inr (s1, ?tr)" "I s1" "\<alpha> s1 = xs"
    by auto
  have n: "n = nat (en - (i + 1))" using Suc.hyps(2) by simp
  have p: "0 \<le> i + 1" "bgn \<le> i + 1" "i + 1 \<le> en" using Suc.prems(1-4) ien by simp_all
  from Suc.hyps(1) [OF n p Suc.prems(4) Suc.prems(5) x(2) x(3), where tr = ?tr]
  obtain s' new2 where rest:
    "selection_loop c en (i + 1) (s1, ?tr) = Inr (s', ?tr @ new2)" "I s'" "\<alpha> s' = xs"
    "\<forall>cl \<in> set new2. no_move cl"
    by blast
  have "selection_loop c en i (s, tr) = Inr (s', tr @ (new1 @ [ExchangeCall i i] @ new2))"
    using ien scan(1) x(1) rest(1) by (subst selection_loop.simps) simp
  then show ?case using scan(2) rest(2,3,4)
    by (intro exI [of _ s'] exI [of _ "new1 @ [ExchangeCall i i] @ new2"]) auto
qed

lemma Selection_on_sorted:
  assumes lv: "list_view c I \<alpha> f" and Is: "I s"
    and rng: "0 \<le> bgn" "bgn \<le> en" "en \<le> int (length (\<alpha> s))"
    and nd: "nondecreasing f (\<alpha> s) bgn en"
  shows "\<exists>s' new. Selection c bgn en (s, tr) = Inr (s', tr @ new) \<and> I s' \<and> \<alpha> s' = \<alpha> s
      \<and> (\<forall>cl \<in> set new. no_move cl)"
  unfolding Selection_def
  by (rule selection_loop_on_sorted [OF lv rng(1) order_refl rng(2) rng(3) nd Is refl])

lemma shell_sift_on_sorted:
  assumes lv: "list_view c I \<alpha> f" and Is: "I s" and ax: "\<alpha> s = xs"
    and h: "1 \<le> h" and j: "j < n" and n: "n \<le> int (length xs)"
    and so: "sorted_on f xs 0 n"
  shows "\<exists>new. shell_sift c h j (s, tr) = Inr (s, tr @ new)
      \<and> (\<forall>cl \<in> set new. is_LessCall cl)"
proof (cases "h \<le> j")
  case False
  then have "shell_sift c h j (s, tr) = Inr (s, tr @ [])"
    by (subst shell_sift.simps) simp
  then show ?thesis by (intro exI [of _ "[]"]) simp
next
  case True
  have bj: "in_bounds xs j" and bjh: "in_bounds xs (j - h)"
    using True h j n by (auto simp: in_bounds_def)
  have pairs: "\<And>p q. 0 \<le> p \<Longrightarrow> p < q \<Longrightarrow> q < n \<Longrightarrow> \<not> f (xs ! nat q) (xs ! nat p)"
    using so unfolding sorted_on_def by simp
  have "\<not> f (xs ! nat j) (xs ! nat (j - h))"
    using True h j by (intro pairs) simp_all
  then have "shell_sift c h j (s, tr) = Inr (s, tr @ [LessCall j (j - h)])"
    using True h
    by (subst shell_sift.simps) (simp add: do_Less_view [OF lv Is ax bj bjh])
  then show ?thesis by (intro exI [of _ "[LessCall j (j - h)]"]) simp
qed

lemma shell_pass_on_sorted:
  assumes lv: "list_view c I \<alpha> f" and Is: "I s" and ax: "\<alpha> s = xs"
  shows "1 \<le> h \<Longrightarrow> n \<le> int (length xs) \<Longrightarrow> sorted_on f xs 0 n \<Longrightarrow>
   \<exists>new. shell_pass c n h i (s, tr) = Inr (s, tr @ new)
      \<and> (\<forall>cl \<in> set new. is_LessCall cl)"
proof (induction "nat (n - i)" arbitrary: i tr)
  case 0
  then have "shell_pass c n h i (s, tr) = Inr (s, tr @ [])"
    by (subst shell_pass.simps) simp
  then show ?case by (intro exI [of _ "[]"]) simp
next
  case (Suc k)
  then have k: "k = nat (n - (i + 1))" and i: "i < n" by simp_all
  from shell_sift_on_sorted [OF lv Is ax Suc.prems(1) i Suc.prems(2) Suc.prems(3), where tr = tr]
  obtain new1 where sf:
    "shell_sift c h i (s, tr) = Inr (s, tr @ new1)"
    "\<forall>cl \<in> set new1. is_LessCall cl"
    by blast
  from Suc.hyps(1) [OF k Suc.prems, where tr = "tr @ new1"]
  obtain new2 where r:
    "shell_pass c n h (i + 1) (s, tr @ new1) = Inr (s, (tr @ new1) @ new2)"
    "\<forall>cl \<in> set new2. is_LessCall cl"
    by blast
  have "shell_pass c n h i (s, tr) = Inr (s, tr @ (new1 @ new2))"
    using i sf(1) r(1) by (subst shell_pass.simps) simp
  then show ?case using sf(2) r(2) by (intro exI [of _ "new1 @ new2"]) auto
qed

lemma shell_loop_on_sorted:
  assumes lv: "list_view c I \<alpha> f" and Is: "I s" and ax: "\<alpha> s = xs"
  shows "n \<le> int (length xs) \<Longrightarrow> sorted_on f xs 0 n \<Longrightarrow>
   \<exists>new. shell_loop c n h (s, tr) = Inr (s, tr @ new)
      \<and> (\<forall>cl \<in> set new. is_LessCall cl)"
proof (induction "nat h" arbitrary: h tr rule: less_induct)
  case less
  show ?case
  proof (cases "1 \<le> h")
    case False
    then have "shell_loop c n h (s, tr) = Inr (s, tr @ [])"
      by (subst shell_loop.simps) simp
    then show ?thesis by (intro exI [of _ "[]"]) simp
  next
    case True
    from shell_pass_on_sorted [OF lv Is ax True less.prems, where i = h and tr = tr]
    obtain new1 where p:
      "shell_pass c n h h (s, tr) = Inr (s, tr @ new1)"
      "\<forall>cl \<in> set new1. is_LessCall cl"
      by blast
    have d: "nat (h sdiv 3) < nat h" using True by (simp add: signed_divide_int_def)
    from less.hyps [OF d less.prems, where tr = "tr @ new1"]
    obtain new2 where r:
      "shell_loop c n (h sdiv 3) (s, tr @ new1) = Inr (s, (tr @ new1) @ new2)"
      "\<forall>cl \<in> set new2. is_LessCall cl"
      by blast
    have "shell_loop c n h (s, tr) = Inr (s, tr @ (new1 @ new2))"
      using True p(1) r(1) by (subst shell_loop.simps) simp
    then show ?thesis using p(2) r(2) by (intro exI [of _ "new1 @ new2"]) auto
  qed
qed

lemma Shell_on_sorted_from_zero:
  assumes swo: "strict_weak_order f" and lv: "list_view c I \<alpha> f" and Is: "I s"
    and rng: "0 \<le> hi" "hi \<le> int (length (\<alpha> s))" "int (length (\<alpha> s)) < 2 ^ 63"
    and nd: "nondecreasing f (\<alpha> s) 0 hi"
  shows "\<exists>new. Shell c 0 hi (s, tr) = Inr (s, tr @ new)
      \<and> (\<forall>cl \<in> set new. is_LessCall cl)"
proof -
  have w: "wrap_int64 (hi - 0) = hi"
    using rng by (simp add: wrap_int64_id)
  have so: "sorted_on f (\<alpha> s) 0 hi" by (rule nondecreasing_sorted_on [OF swo nd])
  show ?thesis
    unfolding Shell_def Let_def w
    by (rule shell_loop_on_sorted [OF lv Is refl rng(2) so])
qed

section \<open>Ranges with at most one element\<close>

text \<open>For every receiver: the loops do not run, but for the one exchange of \<^verbatim>\<open>Selection\<close>.\<close>

lemma Selection_empty: "Selection c b b st = Inr st"
  by (simp add: Selection_def selection_loop.simps)

lemma Insertion_empty: "Insertion c b b st = Inr st"
  by (simp add: Insertion_def insertion_loop.simps)

lemma Shell_empty: "Shell c b b st = Inr st"
  by (simp add: Shell_def wrap_int64_def loop_eqs signed_divide_int_def)

lemma Insertion_single: "Insertion c b (b + 1) st = Inr st"
  by (simp add: Insertion_def loop_eqs)

lemma Shell_single: "Shell c b (b + 1) st = Inr st"
  by (simp add: Shell_def wrap_int64_def loop_eqs signed_divide_int_def)

lemma Selection_single: "Selection c b (b + 1) st = do_Exchange c b b st"
  by (simp add: Selection_def loop_eqs split: sum.splits)

section \<open>The sorter stands for its slice\<close>

text \<open>
  A sorter whose slice holds no nil interface meets what the procedures expect, with
  the elements of the slice as the list. \<^verbatim>\<open>Exchange\<close> on a position that holds the nil
  interface panics.
\<close>

lemma mks_list_view: "list_view mks_Sortable (mks_ready f) mks_elems f"
  unfolding list_view_def
proof (intro allI impI)
  fix s :: "'a multiKeySorter" and i j
  assume h: "mks_ready f s \<and> in_bounds (mks_elems s) i \<and> in_bounds (mks_elems s) j"
  then obtain xs where xs: "coll s = Slice xs" "None \<notin> set xs" "lesser s = f"
    by (auto simp: mks_ready_def split: go_value.splits)
  have e: "mks_elems s = xs" using xs by (simp add: mks_elems_def)
  have b: "in_bounds xs i" "in_bounds xs j" using h e by simp_all
  then have n: "nat i < length xs" "nat j < length xs" by (auto simp: in_bounds_def)
  then have nn: "xs ! nat i \<noteq> None" "xs ! nat j \<noteq> None"
    using xs(2) nth_mem by metis+
  let ?zs = "xs[nat i := xs ! nat j, nat j := xs ! nat i]"
  have "mset ?zs = mset xs" by (rule mset_exchange [OF n])
  then have "set ?zs = set xs" by (rule mset_eq_setD)
  then have r: "mks_ready f (s\<lparr>coll := Slice ?zs\<rparr>)"
    using xs by (simp add: mks_ready_def)
  have l: "Less mks_Sortable s i j = Inr (f (mks_elems s ! nat i) (mks_elems s ! nat j))"
    using xs b e by (simp add: mks_Sortable_def mks_Less_def)
  have x: "Exchange mks_Sortable s i j = Inr (s\<lparr>coll := Slice ?zs\<rparr>)"
    using xs b nn by (auto simp: mks_Sortable_def mks_Exchange_def Let_def)
  have "mks_elems (s\<lparr>coll := Slice ?zs\<rparr>)
      = (mks_elems s)[nat i := mks_elems s ! nat j, nat j := mks_elems s ! nat i]"
    unfolding e by (simp add: mks_elems_def)
  with l x r
  show "Less mks_Sortable s i j = Inr (f (mks_elems s ! nat i) (mks_elems s ! nat j)) \<and>
        (\<exists>s'. Exchange mks_Sortable s i j = Inr s' \<and> mks_ready f s' \<and>
              mks_elems s' = (mks_elems s)[nat i := mks_elems s ! nat j, nat j := mks_elems s ! nat i])"
    by blast
qed

lemma mks_ready_slice:
  "None \<notin> set xs \<Longrightarrow> mks_ready f \<lparr>coll = Slice xs, lesser = f\<rparr>"
  by (simp add: mks_ready_def)

lemma mks_ready_elems:
  "mks_ready f s \<Longrightarrow> s = \<lparr>coll = Slice (mks_elems s), lesser = f\<rparr>"
  by (cases s) (auto simp: mks_ready_def mks_elems_def split: go_value.splits)

lemma mks_Exchange_nil:
  "in_bounds xs i \<Longrightarrow> in_bounds xs j \<Longrightarrow> xs ! nat i = None \<or> xs ! nat j = None \<Longrightarrow>
   Exchange mks_Sortable \<lparr>coll = Slice xs, lesser = f\<rparr> i j = Inl ZeroValuePanic"
  by (auto simp: mks_Sortable_def mks_Exchange_def Let_def)

lemma strict_weak_order_nil_first:
  assumes "strict_weak_order f"
  shows "strict_weak_order (nil_first f)"
proof -
  have f: "\<And>a. \<not> f a a" "\<And>a b c. f a b \<Longrightarrow> f b c \<Longrightarrow> f a c"
    "\<And>a b c. \<not> f a b \<Longrightarrow> \<not> f b c \<Longrightarrow> \<not> f a c"
    using assms unfolding strict_weak_order_def by blast+
  have 1: "\<not> nil_first f a a" for a
    by (cases a) (simp_all add: f(1))
  have 2: "nil_first f a b \<Longrightarrow> nil_first f b c \<Longrightarrow> nil_first f a c" for a b c
    by (cases a; cases b; cases c) (auto intro: f(2))
  have 3: "\<not> nil_first f a b \<Longrightarrow> \<not> nil_first f b c \<Longrightarrow> \<not> nil_first f a c" for a b c
    by (cases a; cases b; cases c) (auto dest: f(3))
  show ?thesis unfolding strict_weak_order_def using 1 2 3 by blast
qed

lemma strict_weak_order_less: "strict_weak_order ((<) :: int \<Rightarrow> int \<Rightarrow> bool)"
  by (auto simp: strict_weak_order_def)

lemma Shell_sorts_slice_from_zero:
  assumes swo: "strict_weak_order f" and nn: "None \<notin> set xs"
    and rng: "0 \<le> hi" "hi \<le> int (length xs)" "int (length xs) < 2 ^ 63"
  shows "\<exists>ys tr'. Shell mks_Sortable 0 hi (\<lparr>coll = Slice xs, lesser = f\<rparr>, tr)
                = Inr (\<lparr>coll = Slice ys, lesser = f\<rparr>, tr')
      \<and> None \<notin> set ys \<and> length ys = length xs \<and> mset ys = mset xs
      \<and> (\<forall>k. nat hi \<le> k \<longrightarrow> ys ! k = xs ! k)
      \<and> sorted_on f ys 0 hi"
proof -
  let ?s = "\<lparr>coll = Slice xs, lesser = f\<rparr>"
  have e: "mks_elems ?s = xs" by (simp add: mks_elems_def)
  have r: "mks_ready f ?s" by (rule mks_ready_slice [OF nn])
  from Shell_sorts_from_zero [OF swo mks_list_view, of hi ?s, unfolded e, OF rng r, where tr = tr]
  obtain s' tr' where s':
    "Shell mks_Sortable 0 hi (?s, tr) = Inr (s', tr')" "mks_ready f s'"
    "length (mks_elems s') = length xs" "mset (mks_elems s') = mset xs"
    "\<forall>k. nat hi \<le> k \<longrightarrow> mks_elems s' ! k = xs ! k"
    "sorted_on f (mks_elems s') 0 hi"
    by blast
  have form: "s' = \<lparr>coll = Slice (mks_elems s'), lesser = f\<rparr>"
    by (rule mks_ready_elems [OF s'(2)])
  have "set (mks_elems s') = set xs" using s'(4) by (rule mset_eq_setD)
  then have "None \<notin> set (mks_elems s')" using nn by simp
  then show ?thesis
    using s'(1,3,4,5,6) form by (intro exI [of _ "mks_elems s'"] exI [of _ tr']) simp
qed

lemma By_Sort_sorts:
  assumes swo: "strict_weak_order f" and nn: "None \<notin> set xs"
    and len: "int (length xs) < 2 ^ 63"
  shows "\<exists>ys tr'. By_Sort f (Slice xs) = Inr (\<lparr>coll = Slice ys, lesser = f\<rparr>, tr')
      \<and> mset ys = mset xs \<and> sorted_on f ys 0 (int (length ys))"
proof -
  from Shell_sorts_slice_from_zero [OF swo nn _ order_refl len, where tr = "[]"]
  obtain ys tr' where
    "Shell mks_Sortable 0 (int (length xs)) (\<lparr>coll = Slice xs, lesser = f\<rparr>, [])
       = Inr (\<lparr>coll = Slice ys, lesser = f\<rparr>, tr')"
    "length ys = length xs" "mset ys = mset xs" "sorted_on f ys 0 (int (length xs))"
    by auto
  then show ?thesis by (auto simp: By_Sort_def mks_Length_def)
qed

lemma By_Sort_on_slice:
  "By_Sort f NonSlice = Inl NonSlicePanic
   \<and> By_Sort f (Slice xs)
       = Shell mks_Sortable 0 (int (length xs)) (\<lparr>coll = Slice xs, lesser = f\<rparr>, [])
   \<and> Length mks_Sortable \<lparr>coll = Slice xs, lesser = f\<rparr> = Inr (int (length xs))"
  by (simp add: By_Sort_def mks_Sortable_def mks_Length_def)

lemma mks_calls_on_values:
  "in_bounds xs i \<Longrightarrow> in_bounds xs j \<Longrightarrow>
   Less mks_Sortable \<lparr>coll = Slice xs, lesser = f\<rparr> i j = Inr (f (xs ! nat i) (xs ! nat j))
   \<and> (xs ! nat i \<noteq> None \<and> xs ! nat j \<noteq> None \<longrightarrow>
        Exchange mks_Sortable \<lparr>coll = Slice xs, lesser = f\<rparr> i j
          = Inr \<lparr>coll = Slice (xs[nat i := xs ! nat j, nat j := xs ! nat i]), lesser = f\<rparr>)"
  by (auto simp: mks_Sortable_def mks_Less_def mks_Exchange_def Let_def)

lemma mks_Exchange_same:
  "in_bounds xs b \<Longrightarrow> xs ! nat b \<noteq> None \<Longrightarrow>
   do_Exchange mks_Sortable b b (\<lparr>coll = Slice xs, lesser = f\<rparr>, tr)
     = Inr (\<lparr>coll = Slice xs, lesser = f\<rparr>, tr @ [ExchangeCall b b])"
  by (auto simp: mks_Sortable_def do_Exchange_def mks_Exchange_def Let_def)

section \<open>Selection does not sort\<close>

text \<open>
  Claim C1 (the code at a failing input). \<^verbatim>\<open>Selection\<close> over the whole of the
  \<^verbatim>\<open>[]int\<close> slice \<open>[2, 3, 1]\<close> under \<open><\<close> returns with the slice \<open>[2, 1, 3]\<close>, where the
  element at position 1 is less than the element at position 0: the range is not left
  in non-decreasing order.
\<close>

theorem Selection_leaves_descent:
  "result_slice
     (Selection mks_Sortable 0 3
        (\<lparr>coll = Slice (map Some [2, 3, 1 :: int]), lesser = nil_first (<)\<rparr>, []))
     = Inr (Slice (map Some [2, 1, 3]))
   \<and> [2, 1, 3 :: int] ! 1 < [2, 1, 3] ! 0"
  by (simp add: proc_eval mks_eval loop_eqs)

text \<open>
  Claim C2 (the code at a failing input). In the first outer iteration of
  \<^verbatim>\<open>Selection\<close> over \<open>[2, 3, 1]\<close> (\<open>i = 0\<close>, so the scan starts at \<open>j = 1\<close> with
  \<open>min = 0\<close>), the scan makes the single call \<open>Less(1, 0)\<close> and ends with \<open>min = 0\<close>:
  it never visits position 2, which holds an element less than the one at \<open>min\<close>.
\<close>

theorem selection_scan_stops_early:
  "selection_scan mks_Sortable 3 1 0
     (\<lparr>coll = Slice (map Some [2, 3, 1 :: int]), lesser = nil_first (<)\<rparr>, [])
     = Inr (0, (\<lparr>coll = Slice (map Some [2, 3, 1]), lesser = nil_first (<)\<rparr>, [LessCall 1 0]))
   \<and> [2, 3, 1 :: int] ! 2 < [2, 3, 1] ! 0"
  by (simp add: mks_eval loop_eqs)

section \<open>Shell ignores the offset of the range\<close>

text \<open>
  Claim C3 (the code at a failing input). \<^verbatim>\<open>Shell\<close> on the \<^verbatim>\<open>[]int\<close> slice
  \<open>[3, 1, 2]\<close> with \<open>bgn = 1\<close> and \<open>end = 3\<close> returns with the slice \<open>[1, 3, 2]\<close>: the
  elements at the positions \<open>[1, 3)\<close> were 1 and 2 and are now 3 and 2.
\<close>

theorem Shell_offset_changes_range_elems:
  "result_slice
     (Shell mks_Sortable 1 3
        (\<lparr>coll = Slice (map Some [3, 1, 2 :: int]), lesser = nil_first (<)\<rparr>, []))
     = Inr (Slice (map Some [1, 3, 2]))
   \<and> mset (range_elems [1, 3, 2 :: int] 1 3) \<noteq> mset (range_elems [3, 1, 2] 1 3)"
  by (simp add: proc_eval mks_eval loop_eqs range_elems_def)

text \<open>
  Claim C7 (the code at a failing input). In \<open>[3, 1, 2]\<close> the range \<open>[1, 3)\<close> is
  already in order (2 is not less than 1), yet \<^verbatim>\<open>Shell\<close> with \<open>bgn = 1\<close> and
  \<open>end = 3\<close> calls \<open>Exchange(1, 0)\<close> and changes the slice.
\<close>

theorem Shell_offset_exchanges_on_sorted_range:
  "Shell mks_Sortable 1 3
     (\<lparr>coll = Slice (map Some [3, 1, 2 :: int]), lesser = nil_first (<)\<rparr>, [])
     = Inr (\<lparr>coll = Slice (map Some [1, 3, 2]), lesser = nil_first (<)\<rparr>,
            [LessCall 1 0, ExchangeCall 1 0])
   \<and> \<not> [3, 1, 2 :: int] ! 2 < [3, 1, 2] ! 1"
  by (simp add: proc_eval mks_eval loop_eqs)

section \<open>The scenarios\<close>

text \<open>
  Claim C9. \<^verbatim>\<open>Shell\<close> on the \<^verbatim>\<open>[]int\<close> slice \<open>[9, 8, 7, 6, 5, 4, 3, 2, 1]\<close> with
  \<open>bgn = 0\<close> and \<open>end = 9\<close>, under \<open><\<close>, returns with the slice
  \<open>[1, 2, 3, 4, 5, 6, 7, 8, 9]\<close>.
\<close>

theorem Shell_nine_descending:
  "result_slice
     (Shell mks_Sortable 0 9
        (\<lparr>coll = Slice (map Some [9, 8, 7, 6, 5, 4, 3, 2, 1 :: int]), lesser = nil_first (<)\<rparr>, []))
     = Inr (Slice (map Some [1, 2, 3, 4, 5, 6, 7, 8, 9]))"
  by (simp add: proc_eval mks_eval loop_eqs)

text \<open>
  Claim C10. \<^verbatim>\<open>Insertion\<close> on the \<^verbatim>\<open>[]int\<close> slice \<open>[9, 8, 1, 2, 3]\<close> with \<open>bgn = 1\<close>
  and \<open>end = 4\<close>, under \<open><\<close>, returns with the slice \<open>[9, 1, 2, 8, 3]\<close>; every call it
  makes is on positions 1 to 3, and the elements at positions 0 and 4 are the ones
  that were there.
\<close>

theorem Insertion_partial_range:
  "Insertion mks_Sortable 1 4
     (\<lparr>coll = Slice (map Some [9, 8, 1, 2, 3 :: int]), lesser = nil_first (<)\<rparr>, [])
     = Inr (\<lparr>coll = Slice (map Some [9, 1, 2, 8, 3]), lesser = nil_first (<)\<rparr>,
            [LessCall 2 1, ExchangeCall 2 1, LessCall 3 2, ExchangeCall 3 2, LessCall 2 1])"
  by (simp add: proc_eval mks_eval loop_eqs)

section \<open>Shell: where it works, and the first increment\<close>

text \<open>
  Claim C4. \<^verbatim>\<open>Shell(coll, bgn, end)\<close> is the same run as
  \<^verbatim>\<open>Shell(coll, 0, end - bgn)\<close>, with the same calls in the same order (and the
  same panic, if any), for every receiver and all \<open>bgn\<close>, \<open>end\<close>; \<open>end - bgn\<close> is Go's
  subtraction. Every call of a run that returns has both positions in
  \<open>[0, end - bgn)\<close>. With \<open>bgn = 0\<close>, on every receiver that stands for a list of at
  least \<open>hi\<close> elements (its \<^verbatim>\<open>Less\<close> compares the elements, its \<^verbatim>\<open>Exchange\<close> swaps
  them) and under a strict weak ordering, \<^verbatim>\<open>Shell(coll, 0, hi)\<close> returns, leaves the
  positions \<open>[0, hi)\<close> in non-decreasing order, keeps the elements, and does not touch
  the positions from \<open>hi\<close> on. The sorter on a slice with no nil interface among its
  elements is such a receiver.
\<close>

theorem Shell_works_from_position_zero:
  "Shell c bgn en st = Shell c 0 (wrap_int64 (en - bgn)) st
   \<and> (\<forall>st'. Shell c bgn en st = Inr st' \<longrightarrow>
         (\<exists>new. snd st' = snd st @ new
            \<and> (\<forall>cl \<in> set new. call_within 0 (wrap_int64 (en - bgn)) cl)))
   \<and> (list_view c I \<alpha> f \<and> I s \<and> strict_weak_order f
        \<and> 0 \<le> hi \<and> hi \<le> int (length (\<alpha> s)) \<and> int (length (\<alpha> s)) < 2 ^ 63 \<longrightarrow>
         (\<exists>s' tr'. Shell c 0 hi (s, tr) = Inr (s', tr') \<and> I s'
            \<and> length (\<alpha> s') = length (\<alpha> s) \<and> mset (\<alpha> s') = mset (\<alpha> s)
            \<and> (\<forall>k. nat hi \<le> k \<longrightarrow> \<alpha> s' ! k = \<alpha> s ! k)
            \<and> sorted_on f (\<alpha> s') 0 hi))
   \<and> (strict_weak_order g \<and> None \<notin> set xs
        \<and> 0 \<le> hi' \<and> hi' \<le> int (length xs) \<and> int (length xs) < 2 ^ 63 \<longrightarrow>
         (\<exists>ys tr'. Shell mks_Sortable 0 hi' (\<lparr>coll = Slice xs, lesser = g\<rparr>, tr0)
                      = Inr (\<lparr>coll = Slice ys, lesser = g\<rparr>, tr')
            \<and> length ys = length xs \<and> mset ys = mset xs
            \<and> (\<forall>k. nat hi' \<le> k \<longrightarrow> ys ! k = xs ! k)
            \<and> sorted_on g ys 0 hi'))"
proof (intro conjI allI impI)
  show "Shell c bgn en st = Shell c 0 (wrap_int64 (en - bgn)) st"
    by (simp add: Shell_def wrap_int64_idem)
next
  fix st' assume "Shell c bgn en st = Inr st'"
  then show "\<exists>new. snd st' = snd st @ new
      \<and> (\<forall>cl \<in> set new. call_within 0 (wrap_int64 (en - bgn)) cl)"
    by (rule Shell_calls)
next
  assume h: "list_view c I \<alpha> f \<and> I s \<and> strict_weak_order f
      \<and> 0 \<le> hi \<and> hi \<le> int (length (\<alpha> s)) \<and> int (length (\<alpha> s)) < 2 ^ 63"
  then have "strict_weak_order f" "list_view c I \<alpha> f" "0 \<le> hi" "hi \<le> int (length (\<alpha> s))"
    "int (length (\<alpha> s)) < 2 ^ 63" "I s"
    by simp_all
  then show "\<exists>s' tr'. Shell c 0 hi (s, tr) = Inr (s', tr') \<and> I s'
      \<and> length (\<alpha> s') = length (\<alpha> s) \<and> mset (\<alpha> s') = mset (\<alpha> s)
      \<and> (\<forall>k. nat hi \<le> k \<longrightarrow> \<alpha> s' ! k = \<alpha> s ! k)
      \<and> sorted_on f (\<alpha> s') 0 hi"
    by (rule Shell_sorts_from_zero)
next
  assume h: "strict_weak_order g \<and> None \<notin> set xs
      \<and> 0 \<le> hi' \<and> hi' \<le> int (length xs) \<and> int (length xs) < 2 ^ 63"
  then have "strict_weak_order g" "None \<notin> set xs" "0 \<le> hi'" "hi' \<le> int (length xs)"
    "int (length xs) < 2 ^ 63"
    by simp_all
  from Shell_sorts_slice_from_zero [OF this, where tr = tr0]
  show "\<exists>ys tr'. Shell mks_Sortable 0 hi' (\<lparr>coll = Slice xs, lesser = g\<rparr>, tr0)
                      = Inr (\<lparr>coll = Slice ys, lesser = g\<rparr>, tr')
            \<and> length ys = length xs \<and> mset ys = mset xs
            \<and> (\<forall>k. nat hi' \<le> k \<longrightarrow> ys ! k = xs ! k)
            \<and> sorted_on g ys 0 hi'"
    by blast
qed

text \<open>
  The statement at the \<^verbatim>\<open>[]int\<close> slice \<open>[3, 1, 2]\<close>: with \<open>bgn = 1\<close> and \<open>end = 3\<close> the
  run is the run of \<open>bgn = 0\<close>, \<open>end = 2\<close>, and its two calls are on positions 0 and 1;
  with \<open>bgn = 0\<close> and \<open>end = 3\<close> the slice ends up in order.
\<close>

theorem Shell_works_from_position_zero_witness:
  "Shell mks_Sortable 1 3 (\<lparr>coll = Slice (map Some [3, 1, 2 :: int]), lesser = nil_first (<)\<rparr>, [])
     = Shell mks_Sortable 0 2 (\<lparr>coll = Slice (map Some [3, 1, 2]), lesser = nil_first (<)\<rparr>, [])
   \<and> (\<exists>new. [LessCall 1 0, ExchangeCall 1 0] = [] @ new \<and> (\<forall>cl \<in> set new. call_within 0 2 cl))
   \<and> (\<exists>s' tr'. Shell mks_Sortable 0 3
                   (\<lparr>coll = Slice (map Some [3, 1, 2 :: int]), lesser = nil_first (<)\<rparr>, [])
                  = Inr (s', tr')
         \<and> mset (mks_elems s') = mset (map Some [3, 1, 2])
         \<and> sorted_on (nil_first (<)) (mks_elems s') 0 3)
   \<and> (\<exists>ys tr'. Shell mks_Sortable 0 3
                   (\<lparr>coll = Slice (map Some [3, 1, 2 :: int]), lesser = nil_first (<)\<rparr>, [])
                  = Inr (\<lparr>coll = Slice ys, lesser = nil_first (<)\<rparr>, tr')
         \<and> mset ys = mset (map Some [3, 1, 2]) \<and> sorted_on (nil_first (<)) ys 0 3)"
proof -
  let ?xs = "map Some [3, 1, 2 :: int]"
  let ?f = "nil_first ((<) :: int \<Rightarrow> int \<Rightarrow> bool)"
  let ?s = "\<lparr>coll = Slice ?xs, lesser = ?f\<rparr>"
  let ?st = "(?s, []) :: int multiKeySorter run"
  let ?st' = "(\<lparr>coll = Slice (map Some [1, 3, 2 :: int]), lesser = ?f\<rparr>,
      [LessCall 1 0, ExchangeCall 1 0]) :: int multiKeySorter run"
  have run: "Shell mks_Sortable 1 3 ?st = Inr ?st'"
    by (simp add: proc_eval mks_eval loop_eqs)
  have w: "wrap_int64 (3 - 1) = 2" by (simp add: wrap_int64_def)
  have swo: "strict_weak_order ?f"
    by (rule strict_weak_order_nil_first [OF strict_weak_order_less])
  have e: "mks_elems ?s = ?xs" by (simp add: mks_elems_def)
  have h3: "list_view mks_Sortable (mks_ready ?f) mks_elems ?f \<and> mks_ready ?f ?s
      \<and> strict_weak_order ?f \<and> (0::int) \<le> 3 \<and> 3 \<le> int (length (mks_elems ?s))
      \<and> int (length (mks_elems ?s)) < 2 ^ 63"
    using swo by (simp add: mks_list_view mks_ready_def mks_elems_def)
  have h4: "strict_weak_order ?f \<and> None \<notin> set ?xs \<and> (0::int) \<le> 3
      \<and> 3 \<le> int (length ?xs) \<and> int (length ?xs) < 2 ^ 63"
    using swo by simp
  note T = Shell_works_from_position_zero
    [where c = mks_Sortable and bgn = 1 and en = 3 and st = ?st
       and I = "mks_ready ?f" and \<alpha> = mks_elems and f = ?f and s = ?s and hi = 3 and tr = "[]"
       and g = ?f and xs = ?xs and hi' = 3 and ?tr0.0 = "[]"]
  have c1: "Shell mks_Sortable 1 3 ?st = Shell mks_Sortable 0 (wrap_int64 (3 - 1)) ?st"
    using T by blast
  have c2: "\<exists>new. snd ?st' = snd ?st @ new
      \<and> (\<forall>cl \<in> set new. call_within 0 (wrap_int64 (3 - 1)) cl)"
    using T run by blast
  have c3: "\<exists>s' tr'. Shell mks_Sortable 0 3 ?st = Inr (s', tr') \<and> mks_ready ?f s'
      \<and> length (mks_elems s') = length (mks_elems ?s)
      \<and> mset (mks_elems s') = mset (mks_elems ?s)
      \<and> (\<forall>k. nat 3 \<le> k \<longrightarrow> mks_elems s' ! k = mks_elems ?s ! k)
      \<and> sorted_on ?f (mks_elems s') 0 3"
    using T h3 by blast
  have c4: "\<exists>ys tr'. Shell mks_Sortable 0 3 ?st = Inr (\<lparr>coll = Slice ys, lesser = ?f\<rparr>, tr')
      \<and> length ys = length ?xs \<and> mset ys = mset ?xs
      \<and> (\<forall>k. nat 3 \<le> k \<longrightarrow> ys ! k = ?xs ! k)
      \<and> sorted_on ?f ys 0 3"
    using T h4 by blast
  from c3 have c3': "\<exists>s' tr'. Shell mks_Sortable 0 3 ?st = Inr (s', tr')
      \<and> mset (mks_elems s') = mset ?xs \<and> sorted_on ?f (mks_elems s') 0 3"
    unfolding e by blast
  from c4 have c4': "\<exists>ys tr'. Shell mks_Sortable 0 3 ?st
        = Inr (\<lparr>coll = Slice ys, lesser = ?f\<rparr>, tr')
      \<and> mset ys = mset ?xs \<and> sorted_on ?f ys 0 3"
    by blast
  from c1 c2 c3' c4' show ?thesis unfolding w snd_conv by (intro conjI)
qed

text \<open>
  Claim C5, as the claim states it, fails: for a range of 9 elements the first loop
  leaves \<open>h = 4\<close>, which is not less than \<open>9 / 3 = 3\<close>.
\<close>

theorem shell_gap_init_not_below:
  "shell_gap_init 9 1 = 4 \<and> \<not> shell_gap_init 9 1 < 9 sdiv 3"
  by (simp add: loop_eqs signed_divide_int_def)

text \<open>
  Claim C5, amended. After the first loop of \<^verbatim>\<open>Shell\<close>, \<open>h\<close> is the smallest value of
  the sequence 1, 4, 13, 40, 121, ... that is not less than \<open>n / 3\<close> (Go's division),
  where \<open>n = end - bgn\<close>: it is a value of the sequence, it is at least \<open>n / 3\<close>, and every
  earlier value of the sequence is less than \<open>n / 3\<close>.
\<close>

theorem shell_gap_init_least:
  "\<exists>k. shell_gap_init n 1 = gap_seq k \<and> n sdiv 3 \<le> gap_seq k \<and>
       (\<forall>j<k. gap_seq j < n sdiv 3)"
  using shell_gap_init_from_gap [of 0 n] by simp

text \<open>At \<open>n = 40\<close>: \<open>h = 13\<close>, the third value; 1 and 4 are less than \<open>40 / 3 = 13\<close>.\<close>

theorem shell_gap_init_least_witness:
  "shell_gap_init 40 1 = gap_seq 2 \<and> (40::int) sdiv 3 \<le> gap_seq 2 \<and>
   gap_seq 0 < 40 sdiv 3 \<and> gap_seq 1 < 40 sdiv 3"
proof -
  obtain k where k: "shell_gap_init 40 1 = gap_seq k" "40 sdiv 3 \<le> gap_seq k"
      "\<forall>j<k. gap_seq j < 40 sdiv 3"
    using shell_gap_init_least [of 40] by blast
  have v: "shell_gap_init 40 1 = 13"
    by (simp add: loop_eqs signed_divide_int_def)
  have "gap_seq 2 = 13" by (simp add: numeral_2_eq_2)
  then show ?thesis using k v by (simp add: signed_divide_int_def)
qed

section \<open>By.Sort on a slice that holds the nil interface\<close>

text \<open>
  Claim C6 (the code at a failing input). The slice is the \<^verbatim>\<open>[]interface{}\<close> slice
  \<open>[1, nil]\<close> and the comparison puts nil first. \<^verbatim>\<open>By(lesser).Sort\<close> calls
  \<^verbatim>\<open>Shell\<close> over \<open>[0, 2)\<close>; \<open>Less(1, 0)\<close> is true, and \<open>Exchange(1, 0)\<close> panics: \<open>temp\<close> is
  the zero \<^verbatim>\<open>Value\<close>, and after the element 1 is stored at position 1,
  \<^verbatim>\<open>slice.Index(0).Set(temp)\<close> panics. The slice is not sorted and the two elements
  are not swapped.
\<close>

theorem By_Sort_panics_on_nil_element:
  "By_Sort (nil_first (<)) (Slice [Some (1 :: int), None]) = Inl ZeroValuePanic
   \<and> Less mks_Sortable \<lparr>coll = Slice [Some (1 :: int), None], lesser = nil_first (<)\<rparr> 1 0
       = Inr True
   \<and> Exchange mks_Sortable \<lparr>coll = Slice [Some (1 :: int), None], lesser = nil_first (<)\<rparr> 1 0
       = Inl ZeroValuePanic"
  by (simp add: proc_eval mks_eval loop_eqs)

section \<open>Trivial ranges\<close>

text \<open>
  Claim C8, as the claim states it, fails: \<^verbatim>\<open>Selection\<close> on the one-element range
  \<open>[0, 1)\<close> of the \<^verbatim>\<open>[]int\<close> slice \<open>[5]\<close> makes one call, \<open>Exchange(0, 0)\<close>.
\<close>

theorem Selection_single_exchanges:
  "result_calls
     (Selection mks_Sortable 0 1 (\<lparr>coll = Slice (map Some [5 :: int]), lesser = nil_first (<)\<rparr>, []))
     = Inr [ExchangeCall 0 0]"
  by (simp add: proc_eval mks_eval loop_eqs)

text \<open>
  Claim C8, amended. With \<open>bgn = end\<close>, each of \<^verbatim>\<open>Selection\<close>, \<^verbatim>\<open>Insertion\<close> and
  \<^verbatim>\<open>Shell\<close> returns at once: no call, the receiver unchanged. With
  \<open>end = bgn + 1\<close>, \<^verbatim>\<open>Insertion\<close> and \<^verbatim>\<open>Shell\<close> do the same, and \<^verbatim>\<open>Selection\<close> makes
  no \<^verbatim>\<open>Less\<close> call and exactly one call \<open>Exchange(bgn, bgn)\<close>, which leaves a slice
  unchanged when \<open>bgn\<close> is a position of it and the element there is not the nil
  interface.
\<close>

theorem trivial_ranges:
  "Selection c b b st = Inr st \<and> Insertion c b b st = Inr st \<and> Shell c b b st = Inr st
   \<and> Insertion c b (b + 1) st = Inr st \<and> Shell c b (b + 1) st = Inr st
   \<and> Selection c b (b + 1) st = do_Exchange c b b st
   \<and> (in_bounds xs b \<and> xs ! nat b \<noteq> None \<longrightarrow>
        Selection mks_Sortable b (b + 1) (\<lparr>coll = Slice xs, lesser = f\<rparr>, tr)
          = Inr (\<lparr>coll = Slice xs, lesser = f\<rparr>, tr @ [ExchangeCall b b]))"
  by (simp add: Selection_empty Insertion_empty Shell_empty Insertion_single Shell_single
        Selection_single mks_Exchange_same)

text \<open>The statement at the range \<open>[1, 2)\<close> of the \<^verbatim>\<open>[]int\<close> slice \<open>[7, 8]\<close>.\<close>

theorem trivial_ranges_witness:
  "Selection mks_Sortable 1 (1 + 1)
     (\<lparr>coll = Slice (map Some [7, 8 :: int]), lesser = nil_first (<)\<rparr>, [])
     = Inr (\<lparr>coll = Slice (map Some [7, 8]), lesser = nil_first (<)\<rparr>, [] @ [ExchangeCall 1 1])"
proof -
  have h: "in_bounds (map Some [7, 8 :: int]) 1 \<and> map Some [7, 8 :: int] ! nat 1 \<noteq> None"
    by (simp add: in_bounds_def)
  note T = trivial_ranges
    [where c = "mks_Sortable :: int multiKeySorter Sortable" and b = 1
       and st = "(\<lparr>coll = Slice (map Some [7, 8 :: int]), lesser = nil_first (<)\<rparr>, [])"
       and xs = "map Some [7, 8 :: int]" and f = "nil_first (<)" and tr = "[]"]
  show ?thesis using T h by blast
qed

end
